theory Spec2Isabelle
  imports Main "HOL-Library.Word" "HOL-Library.Signed_Division"
begin

unbundle bit_operations_syntax

section \<open>Bytes, fixed-width integers and big integers\<close>

text \<open>
  Go's \<open>byte\<close> is an 8-bit word and \<open>uint64\<close> a 64-bit word. A \<open>[]byte\<close> value and the
  fixed arrays \<open>[32]byte\<close> and \<open>[33]byte\<close> are byte lists (the arrays with their length
  stated where it matters). A \<open>*big.Int\<close> is an \<open>int\<close>.
\<close>

type_synonym byte = "8 word"
type_synonym uint64 = "64 word"

text \<open>
  \<open>binary.Write(&buf, binary.BigEndian, v)\<close> for a \<open>uint64\<close> appends the eight bytes
  \<open>byte(v >> 56), ..., byte(v)\<close> to the buffer.
\<close>

definition PutUint64 :: "uint64 \<Rightarrow> byte list" where
  "PutUint64 v =
     [ucast (drop_bit 56 v), ucast (drop_bit 48 v), ucast (drop_bit 40 v),
      ucast (drop_bit 32 v), ucast (drop_bit 24 v), ucast (drop_bit 16 v),
      ucast (drop_bit 8 v), ucast v]"

text \<open>\<open>new(big.Int).SetBytes(b)\<close>: the bytes read as a big-endian unsigned integer.\<close>

definition SetBytes :: "byte list \<Rightarrow> int" where
  "SetBytes bs = foldl (\<lambda>acc b. acc * 256 + uint b) 0 bs"

text \<open>\<open>x.Bytes()\<close>: the big-endian bytes of \<open>|x|\<close> without leading zero bytes.\<close>

function be_bytes :: "int \<Rightarrow> byte list" where
  "be_bytes n = (if n \<le> 0 then [] else be_bytes (n div 256) @ [word_of_int (n mod 256)])"
  by pat_completeness auto
termination
  by (relation "measure nat") auto

definition Bytes :: "int \<Rightarrow> byte list" where
  "Bytes x = be_bytes \<bar>x\<bar>"

text \<open>\<open>x.BitLen()\<close>: the length of \<open>|x|\<close> in bits; the bit length of 0 is 0.\<close>

function bit_length :: "int \<Rightarrow> int" where
  "bit_length n = (if n \<le> 0 then 0 else 1 + bit_length (n div 2))"
  by pat_completeness auto
termination
  by (relation "measure nat") auto

definition BitLen :: "int \<Rightarrow> int" where
  "BitLen x = bit_length \<bar>x\<bar>"

text \<open>
  \<open>copy(dst, src)\<close> overwrites the first \<open>min(len(dst), len(src))\<close> bytes of \<open>dst\<close>;
  the model returns the new contents of \<open>dst\<close>.
\<close>

definition copy_bytes :: "byte list \<Rightarrow> byte list \<Rightarrow> byte list" where
  "copy_bytes dst src = take (length dst) src @ drop (length src) dst"

text \<open>
  \<open>copy(dst[off:], src)\<close>: the slice expression panics when \<open>off\<close> is negative or beyond
  the length of \<open>dst\<close> (the result \<open>None\<close>); otherwise the bytes from \<open>off\<close> on are
  overwritten.
\<close>

definition copy_at :: "byte list \<Rightarrow> int \<Rightarrow> byte list \<Rightarrow> byte list option" where
  "copy_at dst off src =
     (if off < 0 \<or> int (length dst) < off then None
      else Some (take (nat off) dst @ copy_bytes (drop (nat off) dst) src))"

section \<open>The message encoder\<close>

definition GenerateNumericMessage :: "uint64 \<Rightarrow> byte list" where
  "GenerateNumericMessage v =
     PutUint64 0 @ PutUint64 0 @ PutUint64 0 @ PutUint64 v"

section \<open>The curve context\<close>

text \<open>
  The repository calls the elliptic-curve package \<open>btcec\<close> (the fixed curve
  \<open>btcec.S256()\<close>, that is secp256k1) and the hash \<open>chainhash.HashB\<close>. Both are
  dependencies, not code of the repository. The curve is a record of its domain parameters
  (\<open>curve.P\<close>, \<open>curve.N\<close>, \<open>curve.B\<close> and the base point), and the operations of
  \<open>btcec\<close> are modelled by the affine arithmetic of the curve \<open>y\<^sup>2 = x\<^sup>3 + B\<close> over
  the integers modulo \<open>P\<close> that they implement. As in the \<open>big.Int\<close> interface of
  \<open>btcec\<close>, a point is a pair of integers and the pair \<open>(0, 0)\<close> stands for the point at
  infinity. The hash is a parameter \<open>H\<close> of the functions that call it.
\<close>

record curve =
  curve_P :: int
  curve_N :: int
  curve_B :: int
  curve_Gx :: int
  curve_Gy :: int

type_synonym point = "int \<times> int"

type_synonym hash = "byte list \<Rightarrow> byte list"

definition S256 :: curve where
  "S256 = \<lparr>
     curve_P = 115792089237316195423570985008687907853269984665640564039457584007908834671663,
     curve_N = 115792089237316195423570985008687907852837564279074904382605163141518161494337,
     curve_B = 7,
     curve_Gx = 55066263022277343669578718895168534326250603453777594175500187360389116729240,
     curve_Gy = 32670510020758816978083085130507043184471273380659243275938904335757337482424 \<rparr>"

definition infinity :: point where
  "infinity = (0, 0)"

definition curve_G :: "curve \<Rightarrow> point" where
  "curve_G C = (curve_Gx C, curve_Gy C)"

text \<open>
  \<open>new(big.Int).Exp(x, y, m)\<close>: \<open>x ^ y mod m\<close>, by repeated squaring; the result is
  \<open>1 mod m\<close> when \<open>y \<le> 0\<close>.
\<close>

function ExpMod :: "int \<Rightarrow> int \<Rightarrow> int \<Rightarrow> int" where
  "ExpMod x y m =
     (if y \<le> 0 then 1 mod m
      else let h = ExpMod x (y div 2) m; s = h * h mod m
           in if odd y then s * x mod m else s)"
  by pat_completeness auto
termination
  by (relation "measure (\<lambda>(x, y, m). nat y)") auto

text \<open>The inverse in the field of \<open>P\<close> elements, as the power \<open>P - 2\<close>.\<close>

definition field_inv :: "curve \<Rightarrow> int \<Rightarrow> int" where
  "field_inv C a = ExpMod a (curve_P C - 2) (curve_P C)"

text \<open>Doubling: the tangent rule; a point with \<open>y = 0\<close> doubles to infinity.\<close>

definition Double :: "curve \<Rightarrow> point \<Rightarrow> point" where
  "Double C p1 =
     (let p = curve_P C; x = fst p1; y = snd p1
      in if y mod p = 0 then infinity
         else let l = 3 * x * x * field_inv C (2 * y) mod p;
                  x3 = (l * l - 2 * x) mod p;
                  y3 = (l * (x - x3) - y) mod p
              in (x3, y3))"

text \<open>
  \<open>curve.Add(x1, y1, x2, y2)\<close>: infinity is the identity; points with the same \<open>x\<close> are
  doubled when their \<open>y\<close> agree and add up to infinity otherwise; other points are added
  by the chord rule.
\<close>

definition Add :: "curve \<Rightarrow> point \<Rightarrow> point \<Rightarrow> point" where
  "Add C p1 p2 =
     (let p = curve_P C; x1 = fst p1; y1 = snd p1; x2 = fst p2; y2 = snd p2
      in if x1 = 0 \<and> y1 = 0 then p2
         else if x2 = 0 \<and> y2 = 0 then p1
         else if (x1 - x2) mod p = 0 then
           (if (y1 - y2) mod p = 0 then Double C p1 else infinity)
         else let l = (y2 - y1) * field_inv C (x2 - x1) mod p;
                  x3 = (l * l - x1 - x2) mod p;
                  y3 = (l * (x1 - x3) - y1) mod p
              in (x3, y3))"

text \<open>The multiple \<open>k \<cdot> Q\<close> of a point, by doubling and adding.\<close>

function smul :: "curve \<Rightarrow> int \<Rightarrow> point \<Rightarrow> point" where
  "smul C k Q =
     (if k \<le> 0 then infinity
      else let h = smul C (k div 2) Q; d = Add C h h
           in if odd k then Add C d Q else d)"
  by pat_completeness auto
termination
  by (relation "measure (\<lambda>(C, k, Q). nat k)") auto

text \<open>
  \<open>curve.ScalarMult(x, y, k)\<close> and \<open>curve.ScalarBaseMult(k)\<close>: the scalar is a byte
  string, read big-endian.
\<close>

definition ScalarMult :: "curve \<Rightarrow> point \<Rightarrow> byte list \<Rightarrow> point" where
  "ScalarMult C Q k = smul C (SetBytes k) Q"

definition ScalarBaseMult :: "curve \<Rightarrow> byte list \<Rightarrow> point" where
  "ScalarBaseMult C k = ScalarMult C (curve_G C) k"

text \<open>\<open>curve.IsOnCurve(x, y)\<close>: the curve equation modulo \<open>P\<close>.\<close>

definition IsOnCurve :: "curve \<Rightarrow> point \<Rightarrow> bool" where
  "IsOnCurve C Q =
     (snd Q * snd Q mod curve_P C = (fst Q * fst Q * fst Q + curve_B C) mod curve_P C)"

section \<open>Public keys: serialising and parsing\<close>

text \<open>The errors of the package and of the repository, one constructor for each message.\<close>

datatype error =
    ErrPubKeyEmpty
  | ErrPubKeyMagic
  | ErrPubKeyYbit
  | ErrPubKeyLength
  | ErrPubKeyXTooBig
  | ErrPubKeyYTooBig
  | ErrPubKeyNotOnCurve
  | ErrHashMsgPubRTooBig
  | ErrPrivScalarZero
  | ErrPrivScalarOutOfBounds
  | ErrKScalarZero
  | ErrKScalarOutOfBounds
  | ErrHashMRTooBig
  | ErrSigZero

text \<open>
  The specification groups the errors into kinds (its section 7): a scalar that is zero or
  not below \<open>N\<close>, a buffer that does not decode to a curve point, a challenge not below
  \<open>N\<close>, a signature scalar that is zero.
\<close>

datatype error_kind = InvalidScalar | InvalidPublicKey | InvalidChallenge | InvalidSignature

fun kind_of :: "error \<Rightarrow> error_kind" where
  "kind_of ErrPrivScalarZero = InvalidScalar"
| "kind_of ErrPrivScalarOutOfBounds = InvalidScalar"
| "kind_of ErrKScalarZero = InvalidScalar"
| "kind_of ErrKScalarOutOfBounds = InvalidScalar"
| "kind_of ErrHashMsgPubRTooBig = InvalidChallenge"
| "kind_of ErrHashMRTooBig = InvalidChallenge"
| "kind_of ErrSigZero = InvalidSignature"
| "kind_of _ = InvalidPublicKey"

text \<open>\<open>paddedAppend(size, dst, src)\<close>: \<open>src\<close> appended to \<open>dst\<close>, left-padded with zeros.\<close>

definition paddedAppend :: "nat \<Rightarrow> byte list \<Rightarrow> byte list \<Rightarrow> byte list" where
  "paddedAppend sz dst src = dst @ replicate (sz - length src) 0 @ src"

text \<open>
  \<open>p.SerializeCompressed()\<close>: the format byte \<open>0x02\<close>, with its low bit set when \<open>Y\<close> is
  odd, then \<open>X\<close> on 32 bytes.
\<close>

definition SerializeCompressed :: "point \<Rightarrow> byte list" where
  "SerializeCompressed Q =
     paddedAppend 32 [if odd (snd Q) then 2 OR 1 else 2] (Bytes (fst Q))"

text \<open>
  \<open>decompressPoint(curve, x, ybit)\<close>: a square root of \<open>x\<^sup>3 + B\<close> as the power
  \<open>(P + 1) / 4\<close>, replaced by its negative when its parity is not the one asked for.
\<close>

definition decompressPoint :: "curve \<Rightarrow> int \<Rightarrow> bool \<Rightarrow> error + int" where
  "decompressPoint C x ybit =
     (let x3 = x * x * x + curve_B C;
          y = ExpMod x3 ((curve_P C + 1) div 4) (curve_P C);
          y' = (if ybit \<noteq> odd y then curve_P C - y else y)
      in if ybit \<noteq> odd y' then Inl ErrPubKeyYbit else Inr y')"

text \<open>
  \<open>btcec.ParsePubKey(pubKeyStr, curve)\<close>: the first byte is the format, its low bit the
  parity of \<open>Y\<close>; 65 bytes are an uncompressed or hybrid key (formats 4 and 6), 33 bytes a
  compressed key (format 2); the coordinates must be below \<open>P\<close> and satisfy the curve
  equation.
\<close>

definition ParsePubKey :: "curve \<Rightarrow> byte list \<Rightarrow> error + point" where
  "ParsePubKey C pubKeyStr =
     (if pubKeyStr = [] then Inl ErrPubKeyEmpty
      else
        let ybit = (hd pubKeyStr AND 1 = 1);
            format = hd pubKeyStr AND NOT 1;
            parsed =
              (if length pubKeyStr = 65 then
                 (if format \<noteq> 4 \<and> format \<noteq> 6 then Inl ErrPubKeyMagic
                  else
                    let X = SetBytes (take 32 (drop 1 pubKeyStr));
                        Y = SetBytes (drop 33 pubKeyStr)
                    in if format = 6 \<and> ybit \<noteq> odd Y then Inl ErrPubKeyYbit
                       else Inr (X, Y))
               else if length pubKeyStr = 33 then
                 (if format \<noteq> 2 then Inl ErrPubKeyMagic
                  else
                    let X = SetBytes (take 32 (drop 1 pubKeyStr))
                    in case decompressPoint C X ybit of
                         Inl err \<Rightarrow> Inl err
                       | Inr Y \<Rightarrow> Inr (X, Y))
               else Inl ErrPubKeyLength)
        in case parsed of
             Inl err \<Rightarrow> Inl err
           | Inr Q \<Rightarrow>
               if curve_P C \<le> fst Q then Inl ErrPubKeyXTooBig
               else if curve_P C \<le> snd Q then Inl ErrPubKeyYTooBig
               else if \<not> IsOnCurve C Q then Inl ErrPubKeyNotOnCurve
               else Inr Q)"

section \<open>The oracle functions\<close>

text \<open>
  A Go function returning \<open>([n]byte, error)\<close> returns both values; \<open>None\<close> is the \<open>nil\<close>
  error. The curve that the functions hardcode, \<open>btcec.S256()\<close>, is their first argument
  here, the hash their second. \<open>x.Mod(x, m)\<close> is the Euclidean remainder, which is \<open>mod\<close>
  for the positive moduli \<open>curve.P\<close> and \<open>curve.N\<close>. \<open>GenerateOneTimeSigningKey\<close> reads 32
  bytes from the random source of the system and is not modelled.
\<close>

definition PublicKeyFromPrivateKey :: "curve \<Rightarrow> byte list \<Rightarrow> byte list" where
  "PublicKeyFromPrivateKey C privateKey =
     (let pubKey = replicate 33 0;
          pk = ScalarBaseMult C privateKey
      in copy_bytes pubKey (SerializeCompressed pk))"

definition ComputeSignaturePubKey ::
  "curve \<Rightarrow> hash \<Rightarrow> byte list \<Rightarrow> byte list \<Rightarrow> byte list \<Rightarrow> byte list \<times> error option" where
  "ComputeSignaturePubKey C H oraclePubA oraclePubR message =
     (let returnValue = replicate 33 0
      in case ParsePubKey C oraclePubA of
           Inl err \<Rightarrow> (returnValue, Some err)
         | Inr A \<Rightarrow>
             (case ParsePubKey C oraclePubR of
                Inl err \<Rightarrow> (returnValue, Some err)
              | Inr R \<Rightarrow>
                  let hashInput = message @ Bytes (fst R);
                      e = H hashInput;
                      bigE = SetBytes e
                  in if curve_N C \<le> bigE then (returnValue, Some ErrHashMsgPubRTooBig)
                     else
                       let A1 = ScalarMult C A e;
                           A2 = (fst A1, (- snd A1) mod curve_P C);
                           Pt = Add C A2 R
                       in (copy_bytes returnValue (SerializeCompressed Pt), None)))"

text \<open>
  In \<open>ComputeSignature\<close> the slice expression \<open>s[byteOffset:]\<close> panics when the offset
  is negative: the function then returns nothing, the result \<open>None\<close>. The division of
  \<open>(256 - bigS.BitLen()) / 8\<close> truncates towards zero. The assignments that zero the
  keys (\<open>privKey = empty\<close>, \<open>oneTimeSigningKey = empty\<close>, \<open>bigK.SetInt64(0)\<close>,
  \<open>bigPriv.SetInt64(0)\<close>) come after the last read of what they overwrite and change
  local copies only; they have no counterpart in the model.
\<close>

definition ComputeSignature ::
  "curve \<Rightarrow> hash \<Rightarrow> byte list \<Rightarrow> byte list \<Rightarrow> byte list
     \<Rightarrow> (byte list \<times> error option) option" where
  "ComputeSignature C H privKey oneTimeSigningKey message =
     (let empty = replicate 32 0;
          s = replicate 32 0;
          bigPriv = SetBytes privKey;
          bigK = SetBytes oneTimeSigningKey
      in if bigPriv = 0 then Some (empty, Some ErrPrivScalarZero)
         else if curve_N C \<le> bigPriv then Some (empty, Some ErrPrivScalarOutOfBounds)
         else if bigK = 0 then Some (empty, Some ErrKScalarZero)
         else if curve_N C \<le> bigK then Some (empty, Some ErrKScalarOutOfBounds)
         else
           let Rx = fst (ScalarBaseMult C oneTimeSigningKey);
               e = H (message @ Bytes Rx);
               bigE = SetBytes e
           in if curve_N C \<le> bigE then Some (empty, Some ErrHashMRTooBig)
              else
                let bigS = (bigK - bigE * bigPriv) mod curve_N C
                in if bigS = 0 then Some (empty, Some ErrSigZero)
                   else
                     let byteOffset = (256 - BitLen bigS) sdiv 8
                     in case copy_at s byteOffset (Bytes bigS) of
                          None \<Rightarrow> None
                        | Some s' \<Rightarrow> Some (s', None))"

section \<open>The message as a slice\<close>

text \<open>
  The message is a slice: a window of \<open>sl_len\<close> bytes, with room for \<open>sl_cap\<close>, into a
  backing array that the caller may share with other slices. The store is the list of the
  arrays; a new array is allocated at its end.
\<close>

type_synonym store = "byte list list"

record slice =
  sl_array :: nat
  sl_off :: nat
  sl_len :: nat
  sl_cap :: nat

definition slice_valid :: "store \<Rightarrow> slice \<Rightarrow> bool" where
  "slice_valid st s =
     (sl_array s < length st \<and> sl_len s \<le> sl_cap s \<and>
      sl_off s + sl_cap s \<le> length (st ! sl_array s))"

definition slice_bytes :: "store \<Rightarrow> slice \<Rightarrow> byte list" where
  "slice_bytes st s = take (sl_len s) (drop (sl_off s) (st ! sl_array s))"

text \<open>
  \<open>append(s, bs...)\<close>: when the capacity suffices the bytes are written into the backing
  array of \<open>s\<close>, after its last element, and the result is the same window made longer;
  otherwise a new array is allocated and the bytes of \<open>s\<close> and \<open>bs\<close> are copied into it.
  How much capacity a new array gets beyond its length is not modelled: it is memory no
  caller holds.
\<close>

definition go_append :: "store \<Rightarrow> slice \<Rightarrow> byte list \<Rightarrow> slice \<times> store" where
  "go_append st s bs =
     (if sl_len s + length bs \<le> sl_cap s then
        let a = st ! sl_array s;
            pos = sl_off s + sl_len s;
            a' = take pos a @ bs @ drop (pos + length bs) a
        in (s\<lparr>sl_len := sl_len s + length bs\<rparr>, st[sl_array s := a'])
      else
        let new = slice_bytes st s @ bs
        in (\<lparr>sl_array = length st, sl_off = 0, sl_len = length new, sl_cap = length new\<rparr>,
            st @ [new]))"

text \<open>
  The two functions with their message as a slice in a store. The key arrays are passed
  by value, so that \<open>privKey = empty\<close> and \<open>oneTimeSigningKey = empty\<close> change copies only.
  The store changes in \<open>append(message, ...)\<close>, and the hash reads the slice it returns.
\<close>

definition ComputeSignature_mem ::
  "curve \<Rightarrow> hash \<Rightarrow> byte list \<Rightarrow> byte list \<Rightarrow> slice \<Rightarrow> store
     \<Rightarrow> (byte list \<times> error option) option \<times> store" where
  "ComputeSignature_mem C H privKey oneTimeSigningKey message st =
     (let empty = replicate 32 0;
          s = replicate 32 0;
          bigPriv = SetBytes privKey;
          bigK = SetBytes oneTimeSigningKey
      in if bigPriv = 0 then (Some (empty, Some ErrPrivScalarZero), st)
         else if curve_N C \<le> bigPriv then (Some (empty, Some ErrPrivScalarOutOfBounds), st)
         else if bigK = 0 then (Some (empty, Some ErrKScalarZero), st)
         else if curve_N C \<le> bigK then (Some (empty, Some ErrKScalarOutOfBounds), st)
         else
           let Rx = fst (ScalarBaseMult C oneTimeSigningKey);
               (hashInput, st') = go_append st message (Bytes Rx);
               e = H (slice_bytes st' hashInput);
               bigE = SetBytes e
           in if curve_N C \<le> bigE then (Some (empty, Some ErrHashMRTooBig), st')
              else
                let bigS = (bigK - bigE * bigPriv) mod curve_N C
                in if bigS = 0 then (Some (empty, Some ErrSigZero), st')
                   else
                     let byteOffset = (256 - BitLen bigS) sdiv 8
                     in case copy_at s byteOffset (Bytes bigS) of
                          None \<Rightarrow> (None, st')
                        | Some s' \<Rightarrow> (Some (s', None), st'))"

definition ComputeSignaturePubKey_mem ::
  "curve \<Rightarrow> hash \<Rightarrow> byte list \<Rightarrow> byte list \<Rightarrow> slice \<Rightarrow> store
     \<Rightarrow> (byte list \<times> error option) \<times> store" where
  "ComputeSignaturePubKey_mem C H oraclePubA oraclePubR message st =
     (let returnValue = replicate 33 0
      in case ParsePubKey C oraclePubA of
           Inl err \<Rightarrow> ((returnValue, Some err), st)
         | Inr A \<Rightarrow>
             (case ParsePubKey C oraclePubR of
                Inl err \<Rightarrow> ((returnValue, Some err), st)
              | Inr R \<Rightarrow>
                  let (hashInput, st') = go_append st message (Bytes (fst R));
                      e = H (slice_bytes st' hashInput);
                      bigE = SetBytes e
                  in if curve_N C \<le> bigE then ((returnValue, Some ErrHashMsgPubRTooBig), st')
                     else
                       let A1 = ScalarMult C A e;
                           A2 = (fst A1, (- snd A1) mod curve_P C);
                           Pt = Add C A2 R
                       in ((copy_bytes returnValue (SerializeCompressed Pt), None), st')))"


section \<open>Notions of the specification\<close>

text \<open>
  The challenge \<open>e = H(m \<parallel> Rx)\<close> read as a big-endian integer, where \<open>Rx\<close> is the X
  coordinate of the point \<open>k \<cdot> G\<close>, and the signature scalar \<open>s = (k - e \<cdot> a) mod N\<close>
  (sections 4.3 and 4.4 of the specification). A scalar is invalid when it is zero or not
  below \<open>N\<close>.
\<close>

definition challenge :: "curve \<Rightarrow> hash \<Rightarrow> byte list \<Rightarrow> byte list \<Rightarrow> int" where
  "challenge C H k m = SetBytes (H (m @ Bytes (fst (smul C (SetBytes k) (curve_G C)))))"

definition signature_scalar :: "curve \<Rightarrow> hash \<Rightarrow> byte list \<Rightarrow> byte list \<Rightarrow> byte list \<Rightarrow> int" where
  "signature_scalar C H a k m =
     (SetBytes k - challenge C H k m * SetBytes a) mod curve_N C"

definition invalid_scalar :: "curve \<Rightarrow> byte list \<Rightarrow> bool" where
  "invalid_scalar C a = (SetBytes a = 0 \<or> curve_N C \<le> SetBytes a)"


text \<open>
  The compressed point encoding of the specification (its section 6, the SEC1 compressed
  form): 33 bytes, a prefix byte \<open>0x02\<close> or \<open>0x03\<close> selecting the parity of \<open>Y\<close>, then the X
  coordinate on 32 bytes, big-endian. The buffer decodes to a point when X is below \<open>P\<close> and
  the curve has a point with this X and a Y of this parity.
\<close>

definition sec1_compressed :: "curve \<Rightarrow> byte list \<Rightarrow> bool" where
  "sec1_compressed C bs =
     (length bs = 33 \<and> (hd bs = 2 \<or> hd bs = 3) \<and> SetBytes (tl bs) < curve_P C \<and>
      (\<exists>y\<in>{0..<curve_P C}. odd y = (hd bs = 3) \<and> IsOnCurve C (SetBytes (tl bs), y)))"


section \<open>Assumptions on the curve\<close>

text \<open>
  The points of the curve are infinity and the pairs of coordinates in \<open>[0, P)\<close> that
  satisfy the curve equation. That they form a commutative group under \<open>Add\<close>, that the
  base point has order \<open>N\<close>, and that the power \<open>(P + 1) / 4\<close> computes square roots, are
  facts about secp256k1 that the repository relies on. They are not proved here for
  \<open>S256\<close>: a theorem that needs them assumes \<open>curve_ok\<close> of its curve. On the small
  curve below they are checked by evaluation.
\<close>

definition on_curve :: "curve \<Rightarrow> point \<Rightarrow> bool" where
  "on_curve C Q =
     (Q = infinity \<or>
      (0 \<le> fst Q \<and> fst Q < curve_P C \<and> 0 \<le> snd Q \<and> snd Q < curve_P C \<and> IsOnCurve C Q))"

definition neg_point :: "curve \<Rightarrow> point \<Rightarrow> point" where
  "neg_point C Q = (fst Q, (- snd Q) mod curve_P C)"

primrec nmul :: "curve \<Rightarrow> nat \<Rightarrow> point \<Rightarrow> point" where
  "nmul C 0 Q = infinity"
| "nmul C (Suc n) Q = Add C Q (nmul C n Q)"

definition group_law :: "curve \<Rightarrow> bool" where
  "group_law C =
     ((\<forall>Q R. on_curve C Q \<and> on_curve C R \<longrightarrow> on_curve C (Add C Q R)) \<and>
      (\<forall>Q R. on_curve C Q \<and> on_curve C R \<longrightarrow> Add C Q R = Add C R Q) \<and>
      (\<forall>Q R S. on_curve C Q \<and> on_curve C R \<and> on_curve C S \<longrightarrow>
          Add C (Add C Q R) S = Add C Q (Add C R S)))"

definition generator_ok :: "curve \<Rightarrow> bool" where
  "generator_ok C =
     (on_curve C (curve_G C) \<and>
      smul C (curve_N C) (curve_G C) = infinity \<and>
      (\<forall>k. 0 < k \<and> k < curve_N C \<longrightarrow> smul C k (curve_G C) \<noteq> infinity))"

definition sqrt_ok :: "curve \<Rightarrow> bool" where
  "sqrt_ok C =
     (\<forall>x y. on_curve C (x, y) \<and> (x, y) \<noteq> infinity \<longrightarrow>
        decompressPoint C x (odd y) = Inr y)"

definition params_ok :: "curve \<Rightarrow> bool" where
  "params_ok C =
     (0 < curve_P C \<and> odd (curve_P C) \<and> curve_P C \<le> 2 ^ 256 \<and>
      0 < curve_N C \<and> curve_N C \<le> 2 ^ 256)"

definition curve_ok :: "curve \<Rightarrow> bool" where
  "curve_ok C = (params_ok C \<and> group_law C \<and> generator_ok C \<and> sqrt_ok C)"


text \<open>
  A small curve of the same shape, \<open>y\<^sup>2 = x\<^sup>3 + 3\<close> over the integers modulo 7: it has
  13 points and the base point \<open>(1, 2)\<close> generates them all. The small hash returns 32
  bytes whose big-endian value is below 11.
\<close>

definition small_curve :: curve where
  "small_curve = \<lparr> curve_P = 7, curve_N = 13, curve_B = 3, curve_Gx = 1, curve_Gy = 2 \<rparr>"

definition small_hash :: hash where
  "small_hash bs = replicate 31 0 @ [word_of_int (SetBytes bs mod 11)]"

definition small_points :: "point list" where
  "small_points =
     [(0, 0), (1, 2), (1, 5), (2, 2), (2, 5), (3, 3), (3, 4),
      (4, 2), (4, 5), (5, 3), (5, 4), (6, 3), (6, 4)]"


section \<open>Properties of the encodings\<close>

lemma SetBytes_Nil [simp]: "SetBytes [] = 0"
  by (simp add: SetBytes_def)

lemma SetBytes_snoc [simp]: "SetBytes (bs @ [b]) = SetBytes bs * 256 + uint b"
  by (simp add: SetBytes_def)

lemma SetBytes_nonneg: "0 \<le> SetBytes bs"
  by (induction bs rule: rev_induct) simp_all

lemma SetBytes_append:
  "SetBytes (as @ bs) = SetBytes as * 256 ^ length bs + SetBytes bs"
proof (induction bs rule: rev_induct)
  case Nil
  then show ?case by simp
next
  case (snoc b bs)
  have "SetBytes (as @ bs @ [b]) = SetBytes ((as @ bs) @ [b])" by simp
  also have "\<dots> = SetBytes (as @ bs) * 256 + uint b" by (rule SetBytes_snoc)
  finally show ?case using snoc by (simp add: algebra_simps)
qed

lemma SetBytes_replicate_zero [simp]: "SetBytes (replicate n 0) = 0"
  by (induction n) (simp_all add: SetBytes_def)

lemma SetBytes_zero_padded [simp]: "SetBytes (replicate n 0 @ bs) = SetBytes bs"
  by (simp add: SetBytes_append)

lemma SetBytes_bound: "SetBytes bs < 256 ^ length bs"
proof (induction bs rule: rev_induct)
  case Nil
  then show ?case by simp
next
  case (snoc b bs)
  have "uint b < 256" using uint_bounded [of b] by simp
  with snoc show ?case by simp
qed

lemma uint_split_low_byte:
  "uint (w :: uint64) = uint (drop_bit 8 w) * 256 + uint (ucast w :: byte)"
proof -
  have "uint (drop_bit 8 w) = uint w div 256"
    by (simp add: uint_div_distrib drop_bit_eq_div)
  moreover have "uint (ucast w :: byte) = uint w mod 256"
    by (simp add: unsigned_ucast_eq take_bit_eq_mod)
  ultimately show ?thesis by simp
qed

lemma SetBytes_PutUint64: "SetBytes (PutUint64 v) = uint v"
proof -
  have z: "uint (drop_bit 64 v) = 0"
    by (simp add: drop_bit_word_beyond)
  have s: "uint (drop_bit n v) =
      uint (drop_bit (n + 8) v) * 256 + uint (ucast (drop_bit n v) :: byte)" for n
    using uint_split_low_byte [of "drop_bit n v"] by (simp add: add.commute)
  have "uint v = uint (drop_bit 8 v) * 256 + uint (ucast v :: byte)"
    by (rule uint_split_low_byte)
  then show ?thesis
    unfolding PutUint64_def SetBytes_def
    using s [of 8] s [of 16] s [of 24] s [of 32] s [of 40] s [of 48] s [of 56] z
    by simp
qed

lemma length_PutUint64 [simp]: "length (PutUint64 v) = 8"
  by (simp add: PutUint64_def)

lemma PutUint64_zero: "PutUint64 0 = replicate 8 0"
  unfolding PutUint64_def by code_simp

text \<open>
  Claim C5. For every unsigned 64-bit value \<open>v\<close>, \<open>GenerateNumericMessage v\<close> is exactly
  32 bytes: 24 zero bytes followed by the eight bytes of the big-endian encoding of \<open>v\<close>
  (the eight bytes \<open>byte(v >> 56), ..., byte(v)\<close>, whose big-endian reading is \<open>v\<close>).
  The message of 0 is 32 zero bytes, the message of \<open>2^64 - 1\<close> is 24 zero bytes followed
  by eight bytes \<open>0xFF\<close>, and the function is injective.
\<close>

theorem GenerateNumericMessage_encoding:
  "length (GenerateNumericMessage v) = 32
   \<and> take 24 (GenerateNumericMessage v) = replicate 24 0
   \<and> drop 24 (GenerateNumericMessage v) = PutUint64 v
   \<and> length (PutUint64 v) = 8
   \<and> SetBytes (PutUint64 v) = uint v
   \<and> GenerateNumericMessage 0 = replicate 32 0
   \<and> GenerateNumericMessage 18446744073709551615 = replicate 24 0 @ replicate 8 255
   \<and> inj GenerateNumericMessage"
proof -
  have gnm: "GenerateNumericMessage w = replicate 24 0 @ PutUint64 w" for w
    by (simp add: GenerateNumericMessage_def PutUint64_zero flip: replicate_add)
  have "inj GenerateNumericMessage"
  proof (rule injI)
    fix a b :: uint64
    assume "GenerateNumericMessage a = GenerateNumericMessage b"
    then have "PutUint64 a = PutUint64 b" by (simp add: gnm)
    then have "SetBytes (PutUint64 a) = SetBytes (PutUint64 b)" by simp
    then show "a = b" by (simp add: SetBytes_PutUint64 word_uint_eq_iff)
  qed
  moreover have "GenerateNumericMessage 0 = replicate 32 0"
    by (simp add: gnm PutUint64_zero flip: replicate_add)
  moreover have "PutUint64 18446744073709551615 = replicate 8 255"
    unfolding PutUint64_def by code_simp
  ultimately show ?thesis
    by (simp add: gnm SetBytes_PutUint64)
qed

declare be_bytes.simps [simp del] bit_length.simps [simp del]

lemma be_bytes_nonpos [simp]: "n \<le> 0 \<Longrightarrow> be_bytes n = []"
  by (subst be_bytes.simps) simp

lemma be_bytes_pos:
  "0 < n \<Longrightarrow> be_bytes n = be_bytes (n div 256) @ [word_of_int (n mod 256)]"
  by (subst be_bytes.simps) simp

lemma SetBytes_be_bytes: "0 \<le> n \<Longrightarrow> SetBytes (be_bytes n) = n"
proof (induction n rule: be_bytes.induct)
  case (1 n)
  show ?case
  proof (cases "n \<le> 0")
    case True
    with "1.prems" show ?thesis by simp
  next
    case False
    then have pos: "0 < n" by simp
    have ih: "SetBytes (be_bytes (n div 256)) = n div 256"
      using "1.IH" False pos by simp
    have "uint (word_of_int (n mod 256) :: byte) = n mod 256"
      by (simp add: uint_word_of_int take_bit_eq_mod)
    with ih show ?thesis by (simp add: be_bytes_pos [OF pos])
  qed
qed

lemma length_be_bytes_le: "0 \<le> n \<Longrightarrow> n < 256 ^ l \<Longrightarrow> length (be_bytes n) \<le> l"
proof (induction n arbitrary: l rule: be_bytes.induct)
  case (1 n)
  show ?case
  proof (cases "n \<le> 0")
    case True
    then show ?thesis by simp
  next
    case False
    then have pos: "0 < n" by simp
    with "1.prems" obtain l' where l: "l = Suc l'" by (cases l) auto
    have "n div 256 < 256 ^ l'" using "1.prems" l by simp
    then have "length (be_bytes (n div 256)) \<le> l'"
      using "1.IH" [of l'] False pos by simp
    then show ?thesis by (simp add: be_bytes_pos [OF pos] l)
  qed
qed

lemma length_be_bytes_ge: "256 ^ l \<le> n \<Longrightarrow> l < length (be_bytes n)"
proof (induction n arbitrary: l rule: be_bytes.induct)
  case (1 n)
  have pos: "0 < n" using "1.prems" by (smt (verit) zero_less_power)
  show ?case
  proof (cases l)
    case 0
    then show ?thesis by (simp add: be_bytes_pos [OF pos])
  next
    case (Suc l')
    have "256 ^ l' \<le> n div 256" using "1.prems" Suc by simp
    then have "l' < length (be_bytes (n div 256))"
      using "1.IH" [of l'] pos by simp
    then show ?thesis by (simp add: be_bytes_pos [OF pos] Suc)
  qed
qed

lemma bit_length_nonpos [simp]: "n \<le> 0 \<Longrightarrow> bit_length n = 0"
  by (subst bit_length.simps) simp

lemma bit_length_pos: "0 < n \<Longrightarrow> bit_length n = 1 + bit_length (n div 2)"
  by (subst bit_length.simps) simp

lemma bit_length_nonneg: "0 \<le> bit_length n"
  by (induction n rule: bit_length.induct) (subst bit_length.simps, simp)

lemma bit_length_le: "0 \<le> n \<Longrightarrow> n < 2 ^ b \<Longrightarrow> bit_length n \<le> int b"
proof (induction n arbitrary: b rule: bit_length.induct)
  case (1 n)
  show ?case
  proof (cases "n \<le> 0")
    case True
    then show ?thesis by simp
  next
    case False
    then have pos: "0 < n" by simp
    with "1.prems" obtain b' where b: "b = Suc b'" by (cases b) auto
    have "n div 2 < 2 ^ b'" using "1.prems" b by simp
    then have "bit_length (n div 2) \<le> int b'"
      using "1.IH" [of b'] False pos by simp
    then show ?thesis by (simp add: bit_length_pos [OF pos] b)
  qed
qed

lemma bit_length_gt: "2 ^ b \<le> n \<Longrightarrow> int b < bit_length n"
proof (induction n arbitrary: b rule: bit_length.induct)
  case (1 n)
  have pos: "0 < n" using "1.prems" by (smt (verit) zero_less_power)
  show ?case
  proof (cases b)
    case 0
    then show ?thesis using bit_length_nonneg [of "n div 2"] by (simp add: bit_length_pos [OF pos])
  next
    case (Suc b')
    have "2 ^ b' \<le> n div 2" using "1.prems" Suc by simp
    then have "int b' < bit_length (n div 2)"
      using "1.IH" [of b'] pos by simp
    then show ?thesis by (simp add: bit_length_pos [OF pos] Suc)
  qed
qed

lemma SetBytes_Bytes: "0 \<le> n \<Longrightarrow> SetBytes (Bytes n) = n"
  by (simp add: Bytes_def SetBytes_be_bytes)

lemma length_Bytes_le: "0 \<le> n \<Longrightarrow> n < 256 ^ l \<Longrightarrow> length (Bytes n) \<le> l"
  by (simp add: Bytes_def length_be_bytes_le)

lemma length_Bytes_32: "0 \<le> n \<Longrightarrow> n < 2 ^ 256 \<Longrightarrow> length (Bytes n) \<le> 32"
  using length_Bytes_le [of n 32] by simp

lemma byteOffset_eq:
  assumes "0 < n" 
  shows "(8 * int (length (Bytes n)) - BitLen n) sdiv 8 = 0"
    and "BitLen n \<le> 8 * int (length (Bytes n))"
proof -
  let ?len = "length (be_bytes n)"
  have abs: "\<bar>n\<bar> = n" using assms by simp
  have "n = SetBytes (be_bytes n)" using assms by (simp add: SetBytes_be_bytes)
  then have "n < 256 ^ ?len" using SetBytes_bound [of "be_bytes n"] by simp
  also have "(256::int) ^ ?len = 2 ^ (8 * ?len)" by (simp add: power_mult)
  finally have up: "bit_length n \<le> int (8 * ?len)"
    using bit_length_le [of n "8 * ?len"] assms by simp
  have len1: "1 \<le> ?len" using assms by (simp add: be_bytes_pos)
  have "\<not> n < 256 ^ (?len - 1)"
  proof
    assume "n < 256 ^ (?len - 1)"
    then have "?len \<le> ?len - 1" using length_be_bytes_le [of n "?len - 1"] assms by simp
    with len1 show False by simp
  qed
  then have "(256::int) ^ (?len - 1) \<le> n" by simp
  moreover have "(256::int) ^ (?len - 1) = 2 ^ (8 * (?len - 1))" by (simp add: power_mult)
  ultimately have lo: "int (8 * (?len - 1)) < bit_length n"
    using bit_length_gt [of "8 * (?len - 1)" n] by simp
  have d: "0 \<le> 8 * int ?len - bit_length n" "8 * int ?len - bit_length n < 8"
    using up lo len1 by auto
  then have "(8 * int ?len - bit_length n) div 8 = 0" by simp
  moreover have "(8 * int ?len - bit_length n) sdiv 8 = (8 * int ?len - bit_length n) div 8"
    using d by (simp add: signed_divide_int_def sgn_if)
  ultimately show "(8 * int (length (Bytes n)) - BitLen n) sdiv 8 = 0"
    by (simp add: Bytes_def BitLen_def abs)
  show "BitLen n \<le> 8 * int (length (Bytes n))"
    using up by (simp add: Bytes_def BitLen_def abs)
qed

lemma byteOffset_value:
  assumes "0 < n" "n < 2 ^ 256"
  shows "(256 - BitLen n) sdiv 8 = 32 - int (length (Bytes n))"
proof -
  let ?l = "int (length (Bytes n))"
  let ?r = "8 * ?l - BitLen n"
  have l32: "?l \<le> 32" using length_Bytes_32 [of n] assms by simp
  have r: "0 \<le> ?r" using byteOffset_eq(2) [OF assms(1)] by simp
  have r0: "?r sdiv 8 = 0" by (rule byteOffset_eq(1) [OF assms(1)])
  have nn: "0 \<le> 256 - BitLen n" using r l32 by simp
  have "?r div 8 = 0" using r0 r by (simp add: signed_divide_int_def sgn_if split: if_splits)
  then have "?r < 8" using r by simp
  have "(256 - BitLen n) sdiv 8 = (256 - BitLen n) div 8"
    using nn by (simp add: signed_divide_int_def sgn_if)
  moreover have "(256 - BitLen n) div 8 = 32 - ?l"
    using r \<open>?r < 8\<close> by arith
  ultimately show ?thesis by simp
qed

lemma copy_at_signature:
  assumes "0 < n" "n < 2 ^ 256"
  shows "copy_at (replicate 32 0) ((256 - BitLen n) sdiv 8) (Bytes n)
         = Some (replicate (32 - length (Bytes n)) 0 @ Bytes n)"
proof -
  let ?l = "length (Bytes n)"
  have l32: "?l \<le> 32" using length_Bytes_32 [of n] assms by simp
  have off: "(256 - BitLen n) sdiv 8 = int (32 - ?l)"
    using byteOffset_value [OF assms] l32 by simp
  show ?thesis
    unfolding off copy_at_def copy_bytes_def using l32 by simp
qed

section \<open>The group of points\<close>

declare smul.simps [simp del] ExpMod.simps [simp del]

lemma Add_infinity_left [simp]: "Add C infinity Q = Q"
  by (simp add: Add_def infinity_def)

lemma Add_infinity_right [simp]: "Add C Q infinity = Q"
  by (cases Q) (auto simp: Add_def infinity_def Let_def)

lemma on_curve_infinity [simp]: "on_curve C infinity"
  by (simp add: on_curve_def)

lemma on_curve_neg: 
  assumes "0 < curve_P C" "on_curve C Q"
  shows "on_curve C (neg_point C Q)"
proof (cases "Q = infinity")
  case True
  then show ?thesis by (simp add: neg_point_def infinity_def on_curve_def)
next
  case False
  let ?p = "curve_P C"
  obtain x y where Q: "Q = (x, y)" by (cases Q)
  from assms False Q have r: "0 \<le> x" "x < ?p" "0 \<le> y" "y < ?p"
    and eq: "y * y mod ?p = (x * x * x + curve_B C) mod ?p"
    by (auto simp: on_curve_def IsOnCurve_def)
  have "((- y) mod ?p) * ((- y) mod ?p) mod ?p = ((- y) * (- y)) mod ?p"
    by (simp add: mod_mult_eq)
  also have "\<dots> = y * y mod ?p" by simp
  finally have "IsOnCurve C (x, (- y) mod ?p)"
    using eq by (simp add: IsOnCurve_def)
  then show ?thesis
    using r assms(1) by (simp add: on_curve_def neg_point_def Q)
qed

lemma Add_neg_left:
  assumes p: "0 < curve_P C" "odd (curve_P C)" and Q: "on_curve C Q"
  shows "Add C (neg_point C Q) Q = infinity"
proof (cases "Q = infinity")
  case True
  then show ?thesis by (simp add: neg_point_def infinity_def Add_def)
next
  case False
  let ?p = "curve_P C"
  obtain x y where Qxy: "Q = (x, y)" by (cases Q)
  from Q False Qxy have r: "0 \<le> x" "x < ?p" "0 \<le> y" "y < ?p"
    by (auto simp: on_curve_def)
  from False Qxy have nz: "\<not> (x = 0 \<and> y = 0)" by (simp add: infinity_def)
  have ny0: "(- y) mod ?p = 0 \<longleftrightarrow> y = 0"
    using r p(1) by (auto simp: mod_minus_eq zmod_zminus1_eq_if split: if_splits)
  have nz': "\<not> (x = 0 \<and> (- y) mod ?p = 0)" using nz ny0 by simp
  show ?thesis
  proof (cases "y = 0")
    case True
    then show ?thesis
      using nz nz' by (simp add: Add_def neg_point_def Qxy Let_def Double_def)
  next
    case False
    have "((- y) mod ?p - y) mod ?p = (- y - y) mod ?p"
      by (simp add: mod_diff_left_eq)
    also have "\<dots> = (- (2 * y)) mod ?p" by simp
    finally have e: "((- y) mod ?p - y) mod ?p = (- (2 * y)) mod ?p" .
    have "\<not> ?p dvd 2 * y"
    proof
      assume "?p dvd 2 * y"
      moreover have "coprime ?p 2" using p(2) by (simp add: coprime_right_2_iff_odd)
      ultimately have "?p dvd y" by (simp add: coprime_dvd_mult_right_iff)
      then show False using r False by (auto dest: zdvd_imp_le)
    qed
    then have "(- (2 * y)) mod ?p \<noteq> 0" by (simp add: mod_eq_0_iff_dvd)
    with e False ny0 show ?thesis
      by (simp add: Add_def neg_point_def Qxy Let_def)
  qed
qed

lemma group_law_closed:
  "group_law C \<Longrightarrow> on_curve C Q \<Longrightarrow> on_curve C R \<Longrightarrow> on_curve C (Add C Q R)"
  unfolding group_law_def by blast

lemma group_law_commute:
  "group_law C \<Longrightarrow> on_curve C Q \<Longrightarrow> on_curve C R \<Longrightarrow> Add C Q R = Add C R Q"
  unfolding group_law_def by blast

lemma group_law_assoc:
  "group_law C \<Longrightarrow> on_curve C Q \<Longrightarrow> on_curve C R \<Longrightarrow> on_curve C S \<Longrightarrow>
     Add C (Add C Q R) S = Add C Q (Add C R S)"
  unfolding group_law_def by blast

lemma on_curve_nmul:
  "group_law C \<Longrightarrow> on_curve C Q \<Longrightarrow> on_curve C (nmul C n Q)"
  by (induction n) (simp_all add: group_law_closed)

lemma nmul_add:
  assumes "group_law C" "on_curve C Q"
  shows "nmul C (m + n) Q = Add C (nmul C m Q) (nmul C n Q)"
proof (induction m)
  case 0
  show ?case by simp
next
  case (Suc m)
  have "nmul C (Suc m + n) Q = Add C Q (Add C (nmul C m Q) (nmul C n Q))"
    using Suc by simp
  also have "\<dots> = Add C (Add C Q (nmul C m Q)) (nmul C n Q)"
    using assms by (simp add: group_law_assoc on_curve_nmul)
  finally show ?case by simp
qed

lemma nmul_infinity [simp]: "nmul C n infinity = infinity"
  by (induction n) simp_all

lemma nmul_mult:
  assumes "group_law C" "on_curve C Q"
  shows "nmul C (m * n) Q = nmul C m (nmul C n Q)"
proof (induction m)
  case 0
  show ?case by simp
next
  case (Suc m)
  have "nmul C (Suc m * n) Q = nmul C (n + m * n) Q" by simp
  also have "\<dots> = Add C (nmul C n Q) (nmul C (m * n) Q)"
    using assms by (rule nmul_add)
  finally show ?case using Suc by simp
qed

lemma smul_nonpos [simp]: "k \<le> 0 \<Longrightarrow> smul C k Q = infinity"
  by (subst smul.simps) simp

lemma smul_eq_nmul:
  "group_law C \<Longrightarrow> on_curve C Q \<Longrightarrow> 0 \<le> k \<Longrightarrow> smul C k Q = nmul C (nat k) Q"
proof (induction C k Q rule: smul.induct)
  case (1 C k Q)
  note gl = \<open>group_law C\<close> and Q = \<open>on_curve C Q\<close>
  show ?case
  proof (cases "k \<le> 0")
    case True
    with "1.prems" show ?thesis by simp
  next
    case False
    let ?h = "nat (k div 2)"
    have ih: "smul C (k div 2) Q = nmul C ?h Q"
      using "1.IH" [OF False gl Q] False by simp
    have d: "Add C (nmul C ?h Q) (nmul C ?h Q) = nmul C (?h + ?h) Q"
      using nmul_add [OF gl Q, of ?h ?h] by simp
    have dc: "on_curve C (nmul C (?h + ?h) Q)"
      using gl Q by (rule on_curve_nmul)
    show ?thesis
    proof (cases "odd k")
      case True
      have "k = 2 * (k div 2) + 1" using True by (simp add: odd_two_times_div_two_succ)
      moreover have "0 \<le> k div 2" using False by simp
      ultimately have k: "nat k = Suc (?h + ?h)" by linarith
      have "smul C k Q = Add C (nmul C (?h + ?h) Q) Q"
        using False True ih d by (subst smul.simps) (simp add: Let_def)
      also have "\<dots> = Add C Q (nmul C (?h + ?h) Q)"
        using gl dc Q by (rule group_law_commute)
      finally show ?thesis by (simp add: k)
    next
      case even: False
      have "k = 2 * (k div 2)" using even by simp
      moreover have "0 \<le> k div 2" using False by simp
      ultimately have k: "nat k = ?h + ?h" by linarith
      have "smul C k Q = nmul C (?h + ?h) Q"
        using False even ih d by (subst smul.simps) (simp add: Let_def)
      then show ?thesis by (simp add: k)
    qed
  qed
qed

lemma on_curve_smul:
  "group_law C \<Longrightarrow> on_curve C Q \<Longrightarrow> on_curve C (smul C k Q)"
  by (cases "0 \<le> k") (simp_all add: smul_eq_nmul on_curve_nmul)

lemma smul_smul:
  assumes "group_law C" "on_curve C Q" "0 \<le> j" "0 \<le> k"
  shows "smul C j (smul C k Q) = smul C (j * k) Q"
proof -
  have "smul C j (smul C k Q) = nmul C (nat j) (nmul C (nat k) Q)"
    using assms by (simp add: smul_eq_nmul on_curve_nmul)
  also have "\<dots> = nmul C (nat j * nat k) Q"
    using assms by (simp add: nmul_mult)
  also have "nat j * nat k = nat (j * k)"
    using assms by (simp add: nat_mult_distrib)
  finally show ?thesis using assms by (simp add: smul_eq_nmul)
qed

lemma smul_add:
  assumes "group_law C" "on_curve C Q" "0 \<le> j" "0 \<le> k"
  shows "smul C (j + k) Q = Add C (smul C j Q) (smul C k Q)"
  using assms by (simp add: smul_eq_nmul nmul_add nat_add_distrib)

lemma smul_order_multiple:
  assumes gl: "group_law C" and Q: "on_curve C Q" and ord: "smul C n Q = infinity"
    and "0 \<le> n" "0 \<le> t"
  shows "smul C (t * n) Q = infinity"
proof -
  have "smul C (t * n) Q = smul C t (smul C n Q)"
    by (rule smul_smul [OF gl Q \<open>0 \<le> t\<close> \<open>0 \<le> n\<close>, symmetric])
  also have "\<dots> = infinity"
    unfolding ord using \<open>0 \<le> t\<close> gl by (simp add: smul_eq_nmul)
  finally show ?thesis .
qed

lemma smul_mod_order:
  assumes gl: "group_law C" and Q: "on_curve C Q" and ord: "smul C n Q = infinity"
    and n: "0 < n" and k: "0 \<le> k"
  shows "smul C (k mod n) Q = smul C k Q"
proof -
  have q: "0 \<le> k div n" using n k by (simp add: pos_imp_zdiv_nonneg_iff)
  have r: "0 \<le> k mod n" using n by simp
  have "smul C k Q = smul C ((k div n) * n + k mod n) Q" by simp
  also have "\<dots> = Add C (smul C ((k div n) * n) Q) (smul C (k mod n) Q)"
    using gl Q q r n by (intro smul_add) simp_all
  also have "smul C ((k div n) * n) Q = infinity"
    using gl Q ord n q by (intro smul_order_multiple) simp_all
  finally show ?thesis by simp
qed

section \<open>Serialised points\<close>

lemma copy_bytes_full: "length src = length dst \<Longrightarrow> copy_bytes dst src = src"
  by (simp add: copy_bytes_def)

lemma SerializeCompressed_eq:
  assumes "0 \<le> fst Q" "fst Q < 2 ^ 256"
  shows "SerializeCompressed Q =
           (if odd (snd Q) then 3 else 2) # replicate (32 - length (Bytes (fst Q))) 0 @ Bytes (fst Q)"
    and "length (SerializeCompressed Q) = 33"
proof -
  have l: "length (Bytes (fst Q)) \<le> 32" using assms by (rule length_Bytes_32)
  have b: "(2 OR 1 :: byte) = 3" by simp
  show "SerializeCompressed Q =
           (if odd (snd Q) then 3 else 2) # replicate (32 - length (Bytes (fst Q))) 0 @ Bytes (fst Q)"
    by (simp add: SerializeCompressed_def paddedAppend_def b)
  then show "length (SerializeCompressed Q) = 33" using l by simp
qed

lemma on_curve_range:
  assumes "on_curve C Q" "0 < curve_P C"
  shows "0 \<le> fst Q" "fst Q < curve_P C" "0 \<le> snd Q" "snd Q < curve_P C"
  using assms by (auto simp: on_curve_def infinity_def)

lemma on_curve_IsOnCurve:
  "on_curve C Q \<Longrightarrow> Q \<noteq> infinity \<Longrightarrow> IsOnCurve C Q"
  by (auto simp: on_curve_def)

lemma ParsePubKey_SerializeCompressed:
  assumes par: "params_ok C" and sq: "sqrt_ok C" and Q: "on_curve C Q" and ni: "Q \<noteq> infinity"
  shows "ParsePubKey C (SerializeCompressed Q) = Inr Q"
proof -
  obtain x y where Qxy: "Q = (x, y)" by (cases Q)
  have p: "0 < curve_P C" "curve_P C \<le> 2 ^ 256" using par by (simp_all add: params_ok_def)
  have r: "0 \<le> x" "x < curve_P C" "0 \<le> y" "y < curve_P C"
    using on_curve_range [OF Q p(1)] by (simp_all add: Qxy)
  have x256: "x < 2 ^ 256" using r p by simp
  have ser: "SerializeCompressed Q =
      (if odd y then 3 else 2) # replicate (32 - length (Bytes x)) 0 @ Bytes x"
    and len: "length (SerializeCompressed Q) = 33"
    using SerializeCompressed_eq [of Q] r x256 by (simp_all add: Qxy)
  have l32: "length (Bytes x) \<le> 32" using r x256 by (intro length_Bytes_32)
  have dec: "decompressPoint C x (odd y) = Inr y"
    using sq Q ni unfolding sqrt_ok_def Qxy by blast
  have oc: "IsOnCurve C (x, y)" using on_curve_IsOnCurve [OF Q ni] by (simp add: Qxy)
  define xs where "xs = replicate (32 - length (Bytes x)) 0 @ Bytes x"
  have xs: "length xs = 32" "SetBytes xs = x"
    using l32 r by (simp_all add: xs_def SetBytes_Bytes)
  have fmt: "((3::byte) AND 1 = 1) = True" "((2::byte) AND 1 = 1) = False"
    "(3::byte) AND NOT 1 = 2" "(2::byte) AND NOT 1 = 2"
    by simp_all
  have "ParsePubKey C ((if odd y then 3 else 2) # xs) = Inr (x, y)"
  proof (cases "odd y")
    case True
    then show ?thesis
      unfolding ParsePubKey_def using xs dec r oc by (simp add: fmt Let_def)
  next
    case False
    then show ?thesis
      unfolding ParsePubKey_def using xs dec r oc by (simp add: fmt Let_def)
  qed
  then show ?thesis using ser by (simp add: xs_def Qxy)
qed

lemma PublicKeyFromPrivateKey_eq:
  assumes "on_curve C (ScalarBaseMult C k)" "0 < curve_P C" "curve_P C \<le> 2 ^ 256"
  shows "PublicKeyFromPrivateKey C k = SerializeCompressed (ScalarBaseMult C k)"
proof -
  let ?Q = "ScalarBaseMult C k"
  have "0 \<le> fst ?Q" "fst ?Q < 2 ^ 256"
    using on_curve_range [OF assms(1,2)] assms(3) by simp_all
  then have "length (SerializeCompressed ?Q) = 33" by (rule SerializeCompressed_eq)
  then show ?thesis
    by (simp add: PublicKeyFromPrivateKey_def Let_def copy_bytes_full)
qed

section \<open>The small curve satisfies the assumptions\<close>

lemma small_enum:
  "\<forall>x\<in>set [0..6]. \<forall>y\<in>set [0..6].
     on_curve small_curve (x, y) \<longrightarrow> (x, y) \<in> set small_points"
  by code_simp

lemma small_on_curve_mem:
  assumes "on_curve small_curve Q"
  shows "Q \<in> set small_points"
proof (cases "Q = infinity")
  case True
  then show ?thesis by (simp add: small_points_def infinity_def)
next
  case False
  obtain x y where Q: "Q = (x, y)" by (cases Q)
  from assms False Q have "0 \<le> x" "x < 7" "0 \<le> y" "y < 7"
    by (auto simp: on_curve_def small_curve_def)
  then have "x \<in> set [0..6]" "y \<in> set [0..6]" by simp_all
  with small_enum assms show ?thesis unfolding Q by blast
qed

lemma small_closed:
  "\<forall>Q\<in>set small_points. \<forall>R\<in>set small_points.
     on_curve small_curve (Add small_curve Q R)"
  by code_simp

lemma small_commute:
  "\<forall>Q\<in>set small_points. \<forall>R\<in>set small_points.
     Add small_curve Q R = Add small_curve R Q"
  by code_simp

lemma small_assoc: 
  "\<forall>Q\<in>set small_points. \<forall>R\<in>set small_points. \<forall>S\<in>set small_points.
     Add small_curve (Add small_curve Q R) S = Add small_curve Q (Add small_curve R S)"
  by code_simp

lemma small_group_law: "group_law small_curve"
  unfolding group_law_def
  using small_closed small_commute small_assoc small_on_curve_mem by blast

lemma small_generator_enum:
  "on_curve small_curve (curve_G small_curve)
   \<and> smul small_curve (curve_N small_curve) (curve_G small_curve) = infinity
   \<and> (\<forall>k\<in>set [1..12]. smul small_curve k (curve_G small_curve) \<noteq> infinity)"
  by code_simp

lemma small_generator_ok: "generator_ok small_curve"
proof -
  have "smul small_curve k (curve_G small_curve) \<noteq> infinity"
    if "0 < k" "k < curve_N small_curve" for k
  proof -
    from that have "k \<in> set [1..12]" by (simp add: small_curve_def)
    with small_generator_enum show ?thesis by blast
  qed
  with small_generator_enum show ?thesis by (simp add: generator_ok_def)
qed

lemma small_sqrt_enum:
  "\<forall>Q\<in>set small_points. Q \<noteq> infinity \<longrightarrow>
     decompressPoint small_curve (fst Q) (odd (snd Q)) = Inr (snd Q)"
  by code_simp

lemma small_sqrt_ok: "sqrt_ok small_curve"
  unfolding sqrt_ok_def using small_sqrt_enum small_on_curve_mem by fastforce

lemma small_params_ok: "params_ok small_curve"
  by (simp add: params_ok_def small_curve_def)

lemma small_curve_ok: "curve_ok small_curve"
  by (simp add: curve_ok_def small_params_ok small_group_law small_generator_ok small_sqrt_ok)


section \<open>The signature engine\<close>

lemma ComputeSignature_unfold:
  "ComputeSignature C H a k m =
     (if SetBytes a = 0 then Some (replicate 32 0, Some ErrPrivScalarZero)
      else if curve_N C \<le> SetBytes a then Some (replicate 32 0, Some ErrPrivScalarOutOfBounds)
      else if SetBytes k = 0 then Some (replicate 32 0, Some ErrKScalarZero)
      else if curve_N C \<le> SetBytes k then Some (replicate 32 0, Some ErrKScalarOutOfBounds)
      else if curve_N C \<le> challenge C H k m then Some (replicate 32 0, Some ErrHashMRTooBig)
      else if signature_scalar C H a k m = 0 then Some (replicate 32 0, Some ErrSigZero)
      else (case copy_at (replicate 32 0)
                   ((256 - BitLen (signature_scalar C H a k m)) sdiv 8)
                   (Bytes (signature_scalar C H a k m)) of
              None \<Rightarrow> None
            | Some s' \<Rightarrow> Some (s', None)))"
  by (simp add: ComputeSignature_def challenge_def signature_scalar_def
      ScalarBaseMult_def ScalarMult_def Let_def)

lemma signature_scalar_range:
  "0 < curve_N C \<Longrightarrow> 0 \<le> signature_scalar C H a k m \<and> signature_scalar C H a k m < curve_N C"
  by (simp add: signature_scalar_def)

lemma ComputeSignature_success:
  assumes N: "0 < curve_N C" "curve_N C \<le> 2 ^ 256"
    and ok: "\<not> invalid_scalar C a" "\<not> invalid_scalar C k"
      "challenge C H k m < curve_N C" "signature_scalar C H a k m \<noteq> 0"
  shows "ComputeSignature C H a k m =
    Some (replicate (32 - length (Bytes (signature_scalar C H a k m))) 0
            @ Bytes (signature_scalar C H a k m), None)"
proof -
  let ?s = "signature_scalar C H a k m"
  have "0 < ?s" "?s < 2 ^ 256"
    using signature_scalar_range [OF N(1), of H a k m] ok(4) N(2) by simp_all
  then have "copy_at (replicate 32 0) ((256 - BitLen ?s) sdiv 8) (Bytes ?s)
      = Some (replicate (32 - length (Bytes ?s)) 0 @ Bytes ?s)"
    by (rule copy_at_signature)
  then show ?thesis
    using ok by (simp add: ComputeSignature_unfold invalid_scalar_def)
qed

text \<open>
  Claim C3. \<open>ComputeSignature\<close> returns an error if and only if a scalar is invalid
  (\<open>a = 0\<close>, \<open>a \<ge> N\<close>, \<open>k = 0\<close> or \<open>k \<ge> N\<close>), or the challenge is not below \<open>N\<close>, or
  the signature scalar is 0; otherwise it succeeds. The kind of the error is
  \<open>InvalidScalar\<close>, \<open>InvalidChallenge\<close> and \<open>InvalidSignature\<close> in these three cases.
  The order \<open>N\<close> is positive and at most \<open>2\<^sup>2\<^sup>5\<^sup>6\<close>, as it is for \<open>S256\<close>.
\<close>

theorem ComputeSignature_error_iff:
  assumes "0 < curve_N C" "curve_N C \<le> 2 ^ 256"
  shows "((\<exists>v err. ComputeSignature C H a k m = Some (v, Some err)) \<longleftrightarrow>
            (invalid_scalar C a \<or> invalid_scalar C k
             \<or> curve_N C \<le> challenge C H k m \<or> signature_scalar C H a k m = 0))
       \<and> ((\<exists>sig. ComputeSignature C H a k m = Some (sig, None)) \<longleftrightarrow>
            \<not> (invalid_scalar C a \<or> invalid_scalar C k
             \<or> curve_N C \<le> challenge C H k m \<or> signature_scalar C H a k m = 0))
       \<and> (\<forall>v err. ComputeSignature C H a k m = Some (v, Some err) \<longrightarrow>
            kind_of err =
              (if invalid_scalar C a \<or> invalid_scalar C k then InvalidScalar
               else if curve_N C \<le> challenge C H k m then InvalidChallenge
               else InvalidSignature))"
proof (cases "invalid_scalar C a \<or> invalid_scalar C k
             \<or> curve_N C \<le> challenge C H k m \<or> signature_scalar C H a k m = 0")
  case True
  then show ?thesis
    by (auto simp: ComputeSignature_unfold invalid_scalar_def)
next
  case False
  then have "ComputeSignature C H a k m =
    Some (replicate (32 - length (Bytes (signature_scalar C H a k m))) 0
            @ Bytes (signature_scalar C H a k m), None)"
    using assms by (intro ComputeSignature_success) auto
  with False show ?thesis by simp
qed

text \<open>
  Claim C2. For valid scalars \<open>a\<close> and \<open>k\<close>, a successful \<open>ComputeSignature\<close> returns
  the 32 bytes of the big-endian encoding of \<open>s = (k - e \<cdot> a) mod N\<close>, left-padded with
  zero bytes, where \<open>e\<close> is the hash of the message followed by the bytes of \<open>Rx\<close>, read
  big-endian, and \<open>Rx\<close> is the X coordinate of \<open>k \<cdot> G\<close>.
\<close>

theorem ComputeSignature_encoding:
  assumes "0 < SetBytes a" "SetBytes a < curve_N C"
    and "0 < SetBytes k" "SetBytes k < curve_N C"
    and "curve_N C \<le> 2 ^ 256"
    and "ComputeSignature C H a k m = Some (sig, None)"
  shows "sig = replicate (32 - length (Bytes (signature_scalar C H a k m))) 0
               @ Bytes (signature_scalar C H a k m)
       \<and> length sig = 32
       \<and> SetBytes sig = signature_scalar C H a k m
       \<and> signature_scalar C H a k m =
           (SetBytes k - SetBytes (H (m @ Bytes (fst (smul C (SetBytes k) (curve_G C)))))
              * SetBytes a) mod curve_N C"
proof -
  let ?s = "signature_scalar C H a k m"
  have N: "0 < curve_N C" using assms by simp
  have ok: "\<not> invalid_scalar C a" "\<not> invalid_scalar C k"
    using assms by (simp_all add: invalid_scalar_def)
  have e: "challenge C H k m < curve_N C" and s0: "?s \<noteq> 0"
    using assms(6) ok by (auto simp: ComputeSignature_unfold invalid_scalar_def split: if_splits)
  have sig: "sig = replicate (32 - length (Bytes ?s)) 0 @ Bytes ?s"
    using ComputeSignature_success [OF N assms(5) ok e s0] assms(6) by simp
  have r: "0 \<le> ?s" "?s < 2 ^ 256"
    using signature_scalar_range [OF N, of H a k m] assms(5) by simp_all
  have "length (Bytes ?s) \<le> 32" using r by (rule length_Bytes_32)
  then show ?thesis
    using r by (simp add: sig SetBytes_Bytes) (simp add: signature_scalar_def challenge_def)
qed

text \<open>
  Claim C10. Whenever \<open>ComputeSignature\<close> returns an error, the 32 bytes returned with
  it are all zero.
\<close>

theorem ComputeSignature_error_value:
  "ComputeSignature C H a k m = Some (v, Some err) \<Longrightarrow> v = replicate 32 0"
  by (auto simp: ComputeSignature_unfold split: if_splits option.splits)

section \<open>The anticipated signature point\<close>

lemma anticipated_point:
  assumes gl: "group_law C" and p: "0 < curve_P C" "odd (curve_P C)"
    and G: "on_curve C G" and ord: "smul C n G = infinity" and n: "0 < n"
    and a: "0 \<le> a" and e: "0 \<le> e" and k: "0 \<le> k" "k < n"
  shows "Add C (neg_point C (smul C e (smul C a G))) (smul C k G)
         = smul C ((k - e * a) mod n) G"
proof -
  let ?s = "(k - e * a) mod n"
  let ?X = "smul C (e * a) G"
  let ?S = "smul C ?s G"
  define t where "t = - ((k - e * a) div n)"
  have ea: "0 \<le> e * a" using a e by simp
  have "k - e * a < n" using k ea by linarith
  then have "(k - e * a) div n \<le> 0"
    using n pos_imp_zdiv_pos_iff [of n "k - e * a"] by simp
  then have t: "0 \<le> t" by (simp add: t_def)
  have s: "0 \<le> ?s" using n by simp
  have "k - e * a = n * ((k - e * a) div n) + ?s" by simp
  then have eq: "?s + e * a = t * n + k" by (simp add: t_def algebra_simps)
  have X: "smul C e (smul C a G) = ?X" using gl G e a by (rule smul_smul)
  have oX: "on_curve C ?X" and oS: "on_curve C ?S"
    using gl G by (rule on_curve_smul)+
  have oN: "on_curve C (neg_point C ?X)" using p(1) oX by (rule on_curve_neg)
  have "smul C (?s + e * a) G = Add C ?S ?X" using gl G s ea by (rule smul_add)
  moreover have "smul C (t * n + k) G = Add C (smul C (t * n) G) (smul C k G)"
    using gl G t n k by (intro smul_add) simp_all
  moreover have "smul C (t * n) G = infinity"
    using gl G ord n t by (intro smul_order_multiple) simp_all
  ultimately have R: "smul C k G = Add C ?S ?X" using eq by simp
  have "Add C (neg_point C ?X) (Add C ?S ?X) = Add C (neg_point C ?X) (Add C ?X ?S)"
    using group_law_commute [OF gl oS oX] by simp
  also have "\<dots> = Add C (Add C (neg_point C ?X) ?X) ?S"
    using group_law_assoc [OF gl oN oX oS] by simp
  also have "\<dots> = ?S" using Add_neg_left [OF p oX] by simp
  finally show ?thesis by (simp add: X R)
qed

lemma ComputeSignaturePubKey_unfold:
  assumes "ParsePubKey C pubA = Inr A" "ParsePubKey C pubR = Inr R"
  shows "ComputeSignaturePubKey C H pubA pubR m =
     (if curve_N C \<le> SetBytes (H (m @ Bytes (fst R)))
      then (replicate 33 0, Some ErrHashMsgPubRTooBig)
      else (copy_bytes (replicate 33 0)
              (SerializeCompressed
                 (Add C (neg_point C (smul C (SetBytes (H (m @ Bytes (fst R)))) A)) R)),
            None))"
  using assms
  by (simp add: ComputeSignaturePubKey_def Let_def ScalarMult_def neg_point_def)

text \<open>
  Claim C1 (equivalence law). On a curve that satisfies the assumptions, for every private
  scalar \<open>a\<close> and nonce scalar \<open>k\<close> with \<open>0 < a < N\<close> and \<open>0 < k < N\<close> and every
  message \<open>m\<close>: whenever \<open>ComputeSignature\<close> succeeds with the signature \<open>s\<close>,
  \<open>ComputeSignaturePubKey\<close> on the public keys of \<open>a\<close> and \<open>k\<close> succeeds as well and
  returns exactly the public key of \<open>s\<close>.
\<close>

theorem signature_pubkey_equivalence:
  assumes ok: "curve_ok C"
    and a: "0 < SetBytes a" "SetBytes a < curve_N C"
    and k: "0 < SetBytes k" "SetBytes k < curve_N C"
    and sig: "ComputeSignature C H a k m = Some (s, None)"
  shows "ComputeSignaturePubKey C H
           (PublicKeyFromPrivateKey C a) (PublicKeyFromPrivateKey C k) m
         = (PublicKeyFromPrivateKey C s, None)"
proof -
  let ?G = "curve_G C" and ?N = "curve_N C"
  let ?A = "smul C (SetBytes a) ?G" and ?R = "smul C (SetBytes k) ?G"
  let ?e = "challenge C H k m" and ?s = "signature_scalar C H a k m"
  from ok have par: "params_ok C" and gl: "group_law C" and gen: "generator_ok C"
    and sq: "sqrt_ok C" by (simp_all add: curve_ok_def)
  from par have p: "0 < curve_P C" "odd (curve_P C)" "curve_P C \<le> 2 ^ 256"
    and N: "0 < ?N" "?N \<le> 2 ^ 256" by (simp_all add: params_ok_def)
  from gen have G: "on_curve C ?G" and ord: "smul C ?N ?G = infinity"
    and ninf: "\<And>j. 0 < j \<Longrightarrow> j < ?N \<Longrightarrow> smul C j ?G \<noteq> infinity"
    by (simp_all add: generator_ok_def)
  have e: "?e < ?N" and s0: "?s \<noteq> 0"
    using sig a k by (auto simp: ComputeSignature_unfold split: if_splits)
  have sr: "0 \<le> ?s" "?s < 2 ^ 256"
    using signature_scalar_range [OF N(1), of H a k m] N(2) by simp_all
  have "s = replicate (32 - length (Bytes ?s)) 0 @ Bytes ?s"
    using ComputeSignature_success [OF N _ _ e s0] a k sig
    by (simp add: invalid_scalar_def)
  then have enc: "SetBytes s = ?s"
    using sr by (simp add: SetBytes_Bytes)
  have e0: "0 \<le> ?e" by (simp add: challenge_def SetBytes_nonneg)
  have on: "on_curve C (smul C j ?G)" for j using gl G by (rule on_curve_smul)
  have pk: "PublicKeyFromPrivateKey C x = SerializeCompressed (smul C (SetBytes x) ?G)" for x
    using PublicKeyFromPrivateKey_eq [of C x] on p
    by (simp add: ScalarBaseMult_def ScalarMult_def)
  have pA: "ParsePubKey C (PublicKeyFromPrivateKey C a) = Inr ?A"
    unfolding pk using par sq on ninf [OF a] by (rule ParsePubKey_SerializeCompressed)
  have pR: "ParsePubKey C (PublicKeyFromPrivateKey C k) = Inr ?R"
    unfolding pk using par sq on ninf [OF k] by (rule ParsePubKey_SerializeCompressed)
  have pt: "Add C (neg_point C (smul C ?e ?A)) ?R = smul C ?s ?G"
    unfolding signature_scalar_def
    using gl p(1,2) G ord N(1) _ e0 _ k(2)
    by (rule anticipated_point) (use a k in simp_all)
  have "0 \<le> fst (smul C ?s ?G)" "fst (smul C ?s ?G) < 2 ^ 256"
    using on_curve_range [OF on p(1), of ?s] p(3) by simp_all
  then have len: "length (SerializeCompressed (smul C ?s ?G)) = 33"
    by (rule SerializeCompressed_eq)
  have "ComputeSignaturePubKey C H
           (PublicKeyFromPrivateKey C a) (PublicKeyFromPrivateKey C k) m
        = (copy_bytes (replicate 33 0) (SerializeCompressed (smul C ?s ?G)), None)"
    using e pt by (simp add: ComputeSignaturePubKey_unfold [OF pA pR] challenge_def)
  then show ?thesis
    using len by (simp add: copy_bytes_full pk enc)
qed

theorem signature_pubkey_equivalence_witness:
  "curve_ok small_curve
   \<and> 0 < SetBytes (replicate 31 0 @ [4])
   \<and> SetBytes (replicate 31 0 @ [4]) < curve_N small_curve
   \<and> 0 < SetBytes (replicate 31 0 @ [7])
   \<and> SetBytes (replicate 31 0 @ [7]) < curve_N small_curve
   \<and> ComputeSignature small_curve small_hash (replicate 31 0 @ [4]) (replicate 31 0 @ [7]) [42]
       = Some (replicate 31 0 @ [6], None)
   \<and> ComputeSignaturePubKey small_curve small_hash
         (PublicKeyFromPrivateKey small_curve (replicate 31 0 @ [4]))
         (PublicKeyFromPrivateKey small_curve (replicate 31 0 @ [7])) [42]
       = (PublicKeyFromPrivateKey small_curve (replicate 31 0 @ [6]), None)
   \<and> PublicKeyFromPrivateKey small_curve (replicate 31 0 @ [6]) = 3 # replicate 31 0 @ [5]"
proof -
  have a: "0 < SetBytes (replicate 31 0 @ [4])" "SetBytes (replicate 31 0 @ [4]) < curve_N small_curve"
    by (simp_all add: small_curve_def)
  have k: "0 < SetBytes (replicate 31 0 @ [7])" "SetBytes (replicate 31 0 @ [7]) < curve_N small_curve"
    by (simp_all add: small_curve_def)
  have s: "ComputeSignature small_curve small_hash (replicate 31 0 @ [4]) (replicate 31 0 @ [7]) [42]
       = Some (replicate 31 0 @ [6], None)"
    by code_simp
  have p: "PublicKeyFromPrivateKey small_curve (replicate 31 0 @ [6]) = 3 # replicate 31 0 @ [5]"
    by code_simp
  show ?thesis
    using signature_pubkey_equivalence [OF small_curve_ok a k s] small_curve_ok a k s p
    by simp
qed

lemma S256_N_bounds: "0 < curve_N S256" "curve_N S256 \<le> 2 ^ 256"
  by (simp_all add: S256_def)

lemma S256_sign_one:
  "ComputeSignature S256 small_hash (replicate 31 0 @ [1]) (replicate 31 0 @ [1]) [42]
   = Some ([255, 255, 255, 255, 255, 255, 255, 255, 255, 255, 255, 255, 255, 255, 255, 254,
            186, 174, 220, 230, 175, 72, 160, 59, 191, 210, 94, 140, 208, 54, 65, 62], None)"
  by code_simp

lemma S256_sign_zero_key:
  "ComputeSignature S256 small_hash (replicate 32 0) (replicate 31 0 @ [1]) [42]
   = Some (replicate 32 0, Some ErrPrivScalarZero)"
  by code_simp

theorem ComputeSignature_encoding_witness:
  "0 < SetBytes (replicate 31 0 @ [1::byte])
   \<and> SetBytes (replicate 31 0 @ [1::byte]) < curve_N S256
   \<and> curve_N S256 \<le> 2 ^ 256
   \<and> ComputeSignature S256 small_hash (replicate 31 0 @ [1]) (replicate 31 0 @ [1]) [42]
       = Some ([255, 255, 255, 255, 255, 255, 255, 255, 255, 255, 255, 255, 255, 255, 255, 254,
                186, 174, 220, 230, 175, 72, 160, 59, 191, 210, 94, 140, 208, 54, 65, 62], None)
   \<and> SetBytes [255, 255, 255, 255, 255, 255, 255, 255, 255, 255, 255, 255, 255, 255, 255, 254,
                186, 174, 220, 230, 175, 72, 160, 59, 191, 210, 94, 140, 208, 54, 65, 62]
       = signature_scalar S256 small_hash (replicate 31 0 @ [1]) (replicate 31 0 @ [1]) [42]"
proof -
  have a: "0 < SetBytes (replicate 31 0 @ [1::byte])"
    "SetBytes (replicate 31 0 @ [1::byte]) < curve_N S256"
    by (simp_all add: S256_def)
  show ?thesis
    using ComputeSignature_encoding [OF a a S256_N_bounds(2) S256_sign_one]
      a S256_N_bounds S256_sign_one
    by blast
qed

theorem ComputeSignature_error_iff_witness:
  "0 < curve_N S256 \<and> curve_N S256 \<le> 2 ^ 256
   \<and> invalid_scalar S256 (replicate 32 0)
   \<and> (\<exists>v err. ComputeSignature S256 small_hash (replicate 32 0) (replicate 31 0 @ [1]) [42]
          = Some (v, Some err))
   \<and> ComputeSignature S256 small_hash (replicate 31 0 @ [1]) (replicate 31 0 @ [1]) [42]
       = Some ([255, 255, 255, 255, 255, 255, 255, 255, 255, 255, 255, 255, 255, 255, 255, 254,
                186, 174, 220, 230, 175, 72, 160, 59, 191, 210, 94, 140, 208, 54, 65, 62], None)
   \<and> \<not> (invalid_scalar S256 (replicate 31 0 @ [1]) \<or> invalid_scalar S256 (replicate 31 0 @ [1])
          \<or> curve_N S256 \<le> challenge S256 small_hash (replicate 31 0 @ [1]) [42]
          \<or> signature_scalar S256 small_hash (replicate 31 0 @ [1]) (replicate 31 0 @ [1]) [42] = 0)"
proof -
  have z: "invalid_scalar S256 (replicate 32 0)" by (simp add: invalid_scalar_def)
  have e: "\<exists>v err. ComputeSignature S256 small_hash (replicate 32 0) (replicate 31 0 @ [1]) [42]
          = Some (v, Some err)"
    using ComputeSignature_error_iff [OF S256_N_bounds, of small_hash "replicate 32 0"
        "replicate 31 0 @ [1]" "[42]"] z by blast
  have "\<exists>sig. ComputeSignature S256 small_hash (replicate 31 0 @ [1]) (replicate 31 0 @ [1]) [42]
       = Some (sig, None)"
    using S256_sign_one by simp
  then have n: "\<not> (invalid_scalar S256 (replicate 31 0 @ [1]) \<or> invalid_scalar S256 (replicate 31 0 @ [1])
          \<or> curve_N S256 \<le> challenge S256 small_hash (replicate 31 0 @ [1]) [42]
          \<or> signature_scalar S256 small_hash (replicate 31 0 @ [1]) (replicate 31 0 @ [1]) [42] = 0)"
    using ComputeSignature_error_iff [OF S256_N_bounds, of small_hash "replicate 31 0 @ [1]"
        "replicate 31 0 @ [1]" "[42]"] by blast
  show ?thesis using S256_N_bounds z e S256_sign_one n by blast
qed

theorem ComputeSignature_error_value_witness:
  "ComputeSignature S256 small_hash (replicate 32 0) (replicate 31 0 @ [1]) [42]
     = Some (replicate 32 0, Some ErrPrivScalarZero)
   \<and> fst (the (ComputeSignature S256 small_hash (replicate 32 0) (replicate 31 0 @ [1]) [42]))
     = replicate 32 0"
proof -
  obtain v where v: "ComputeSignature S256 small_hash (replicate 32 0) (replicate 31 0 @ [1]) [42]
     = Some (v, Some ErrPrivScalarZero)"
    using S256_sign_zero_key by blast
  from ComputeSignature_error_value [OF v] v show ?thesis by simp
qed

section \<open>Key derivation\<close>

lemma ExpMod_range: "0 < m \<Longrightarrow> 0 \<le> ExpMod x y m \<and> ExpMod x y m < m"
  by (subst ExpMod.simps, simp add: Let_def)+

lemma Double_range:
  assumes "0 < curve_P C"
  shows "0 \<le> fst (Double C Q) \<and> fst (Double C Q) < curve_P C
       \<and> 0 \<le> snd (Double C Q) \<and> snd (Double C Q) < curve_P C"
  using assms by (simp add: Double_def Let_def infinity_def)

lemma Add_range:
  assumes p: "0 < curve_P C"
    and Q: "0 \<le> fst Q" "fst Q < curve_P C" "0 \<le> snd Q" "snd Q < curve_P C"
    and R: "0 \<le> fst R" "fst R < curve_P C" "0 \<le> snd R" "snd R < curve_P C"
  shows "0 \<le> fst (Add C Q R) \<and> fst (Add C Q R) < curve_P C
       \<and> 0 \<le> snd (Add C Q R) \<and> snd (Add C Q R) < curve_P C"
  using assms Double_range [OF p, of Q]
  by (simp add: Add_def Let_def infinity_def)

lemma smul_range:
  "0 < curve_P C \<Longrightarrow> 0 \<le> fst Q \<Longrightarrow> fst Q < curve_P C \<Longrightarrow> 0 \<le> snd Q \<Longrightarrow> snd Q < curve_P C
   \<Longrightarrow> 0 \<le> fst (smul C k Q) \<and> fst (smul C k Q) < curve_P C
       \<and> 0 \<le> snd (smul C k Q) \<and> snd (smul C k Q) < curve_P C"
proof (induction C k Q rule: smul.induct)
  case (1 C k Q)
  show ?case
  proof (cases "k \<le> 0")
    case True
    then show ?thesis using "1.prems" by (simp add: infinity_def)
  next
    case False
    let ?h = "smul C (k div 2) Q"
    have h: "0 \<le> fst ?h \<and> fst ?h < curve_P C \<and> 0 \<le> snd ?h \<and> snd ?h < curve_P C"
      using "1.IH" [OF False] "1.prems" by simp
    have d: "0 \<le> fst (Add C ?h ?h) \<and> fst (Add C ?h ?h) < curve_P C
        \<and> 0 \<le> snd (Add C ?h ?h) \<and> snd (Add C ?h ?h) < curve_P C"
      using Add_range [of C ?h ?h] h "1.prems" by simp
    have "0 \<le> fst (Add C (Add C ?h ?h) Q) \<and> fst (Add C (Add C ?h ?h) Q) < curve_P C
        \<and> 0 \<le> snd (Add C (Add C ?h ?h) Q) \<and> snd (Add C (Add C ?h ?h) Q) < curve_P C"
      using Add_range [of C "Add C ?h ?h" Q] d "1.prems" by simp
    with d False show ?thesis
      by (subst smul.simps, simp add: Let_def)+
  qed
qed

text \<open>
  Claim C4, as stated, fails: \<open>PublicKeyFromPrivateKey\<close> has no error result, and on
  the scalar 0 (32 zero bytes) it returns a value, the byte \<open>0x02\<close> followed by 32 zero
  bytes.
\<close>

theorem PublicKeyFromPrivateKey_zero_scalar:
  "SetBytes (replicate 32 0) = 0
   \<and> PublicKeyFromPrivateKey S256 (replicate 32 0) = 2 # replicate 32 0"
  by code_simp

text \<open>
  Claim C4, amended. \<open>PublicKeyFromPrivateKey\<close> never fails: for every scalar, also 0 and
  the scalars not below \<open>N\<close>, it returns 33 bytes, the compressed encoding of the point
  \<open>scalar \<cdot> G\<close>: the byte \<open>0x02\<close> or \<open>0x03\<close> by the parity of \<open>Y\<close>, then \<open>X\<close> on 32 bytes.
\<close>

theorem PublicKeyFromPrivateKey_total:
  "length (PublicKeyFromPrivateKey S256 x) = 33
   \<and> PublicKeyFromPrivateKey S256 x =
       (if odd (snd (smul S256 (SetBytes x) (curve_G S256))) then 3 else 2)
       # replicate (32 - length (Bytes (fst (smul S256 (SetBytes x) (curve_G S256))))) 0
       @ Bytes (fst (smul S256 (SetBytes x) (curve_G S256)))"
proof -
  let ?Q = "smul S256 (SetBytes x) (curve_G S256)"
  have p: "0 < curve_P S256" "curve_P S256 \<le> 2 ^ 256" by (simp_all add: S256_def)
  have "0 \<le> fst ?Q \<and> fst ?Q < curve_P S256"
    using smul_range [of S256 "curve_G S256" "SetBytes x"] by (simp add: S256_def curve_G_def)
  then have r: "0 \<le> fst ?Q" "fst ?Q < 2 ^ 256" using p(2) by simp_all
  have "PublicKeyFromPrivateKey S256 x = SerializeCompressed ?Q"
    using SerializeCompressed_eq(2) [OF r]
    by (simp add: PublicKeyFromPrivateKey_def Let_def copy_bytes_full ScalarBaseMult_def
        ScalarMult_def)
  then show ?thesis
    using SerializeCompressed_eq [OF r] by simp
qed

text \<open>
  Claim C8. \<open>PublicKeyFromPrivateKey\<close> reduces its input modulo \<open>N\<close>: on a curve that
  satisfies the assumptions, for every input \<open>x\<close> it returns the 33-byte compressed
  encoding of \<open>(x mod N) \<cdot> G\<close>; inputs congruent modulo \<open>N\<close> give the same output, and so
  do \<open>x \<ge> N\<close> and the 32-byte encoding of \<open>x - N\<close>.
\<close>

theorem PublicKeyFromPrivateKey_mod_order:
  assumes ok: "curve_ok C"
  shows "PublicKeyFromPrivateKey C x
           = SerializeCompressed (smul C (SetBytes x mod curve_N C) (curve_G C))
       \<and> length (PublicKeyFromPrivateKey C x) = 33
       \<and> (\<forall>y. SetBytes y mod curve_N C = SetBytes x mod curve_N C \<longrightarrow>
             PublicKeyFromPrivateKey C y = PublicKeyFromPrivateKey C x)
       \<and> (curve_N C \<le> SetBytes x \<and> SetBytes x < 2 ^ 256 \<longrightarrow>
             length (paddedAppend 32 [] (Bytes (SetBytes x - curve_N C))) = 32
           \<and> SetBytes (paddedAppend 32 [] (Bytes (SetBytes x - curve_N C)))
               = SetBytes x - curve_N C
           \<and> PublicKeyFromPrivateKey C (paddedAppend 32 [] (Bytes (SetBytes x - curve_N C)))
               = PublicKeyFromPrivateKey C x)"
proof -
  let ?G = "curve_G C" and ?N = "curve_N C"
  from ok have par: "params_ok C" and gl: "group_law C" and gen: "generator_ok C"
    by (simp_all add: curve_ok_def)
  from par have p: "0 < curve_P C" "curve_P C \<le> 2 ^ 256" and N: "0 < ?N"
    by (simp_all add: params_ok_def)
  from gen have G: "on_curve C ?G" and ord: "smul C ?N ?G = infinity"
    by (simp_all add: generator_ok_def)
  have on: "on_curve C (smul C j ?G)" for j using gl G by (rule on_curve_smul)
  have pk: "PublicKeyFromPrivateKey C z = SerializeCompressed (smul C (SetBytes z) ?G)" for z
    using PublicKeyFromPrivateKey_eq [of C z] on p
    by (simp add: ScalarBaseMult_def ScalarMult_def)
  have red: "smul C (SetBytes z mod ?N) ?G = smul C (SetBytes z) ?G" for z
    using gl G ord N SetBytes_nonneg by (rule smul_mod_order)
  have pkm: "PublicKeyFromPrivateKey C z = SerializeCompressed (smul C (SetBytes z mod ?N) ?G)"
    for z by (simp add: pk red)
  have len: "length (PublicKeyFromPrivateKey C x) = 33"
  proof -
    have "0 \<le> fst (smul C (SetBytes x) ?G)" "fst (smul C (SetBytes x) ?G) < 2 ^ 256"
      using on_curve_range [OF on p(1), of "SetBytes x"] p(2) by simp_all
    then show ?thesis unfolding pk by (rule SerializeCompressed_eq)
  qed
  have cong: "PublicKeyFromPrivateKey C y = PublicKeyFromPrivateKey C x"
    if "SetBytes y mod ?N = SetBytes x mod ?N" for y
    using that pkm [of y] pkm [of x] by simp
  have sub: "length (paddedAppend 32 [] (Bytes (SetBytes x - ?N))) = 32
           \<and> SetBytes (paddedAppend 32 [] (Bytes (SetBytes x - ?N))) = SetBytes x - ?N
           \<and> PublicKeyFromPrivateKey C (paddedAppend 32 [] (Bytes (SetBytes x - ?N)))
               = PublicKeyFromPrivateKey C x"
    if "?N \<le> SetBytes x" "SetBytes x < 2 ^ 256"
  proof -
    let ?d = "SetBytes x - ?N"
    have d: "0 \<le> ?d" "?d < 2 ^ 256" using that N by simp_all
    have l: "length (Bytes ?d) \<le> 32" using d by (rule length_Bytes_32)
    have sb: "SetBytes (paddedAppend 32 [] (Bytes ?d)) = ?d"
      using d by (simp add: paddedAppend_def SetBytes_Bytes)
    have "?d mod ?N = SetBytes x mod ?N" by simp
    then have "PublicKeyFromPrivateKey C (paddedAppend 32 [] (Bytes ?d))
        = PublicKeyFromPrivateKey C x"
      using sb by (intro cong) simp
    with l sb show ?thesis by (simp add: paddedAppend_def)
  qed
  show ?thesis using pkm len cong sub by blast
qed

theorem PublicKeyFromPrivateKey_mod_order_witness:
  "curve_ok small_curve
   \<and> PublicKeyFromPrivateKey small_curve (replicate 31 0 @ [14])
       = SerializeCompressed (smul small_curve (SetBytes (replicate 31 0 @ [14]) mod curve_N small_curve)
           (curve_G small_curve))
   \<and> SetBytes (replicate 31 0 @ [1]) mod curve_N small_curve
       = SetBytes (replicate 31 0 @ [14]) mod curve_N small_curve
   \<and> PublicKeyFromPrivateKey small_curve (replicate 31 0 @ [1])
       = PublicKeyFromPrivateKey small_curve (replicate 31 0 @ [14])
   \<and> PublicKeyFromPrivateKey small_curve (replicate 31 0 @ [14]) = 2 # replicate 31 0 @ [1]"
proof -
  have c: "SetBytes (replicate 31 0 @ [1]) mod curve_N small_curve
       = SetBytes (replicate 31 0 @ [14]) mod curve_N small_curve"
    by (simp add: small_curve_def)
  have v: "PublicKeyFromPrivateKey small_curve (replicate 31 0 @ [14]) = 2 # replicate 31 0 @ [1]"
    by code_simp
  show ?thesis
    using PublicKeyFromPrivateKey_mod_order [OF small_curve_ok, of "replicate 31 0 @ [14]"]
      small_curve_ok c v
    by blast
qed

section \<open>Rejected and degenerate public keys\<close>

lemma byte_format_cases:
  fixes b :: byte
  assumes "b AND NOT 1 = 2"
  shows "b = 2 \<or> b = 3"
proof -
  have "b = (b AND NOT 1) OR (b AND 1)"
    by (simp add: bit.conj_disj_distrib [symmetric])
  moreover have "b AND 1 = 0 \<or> b AND 1 = 1"
    by (cases "odd b") (simp_all add: and_one_eq mod_2_eq_odd)
  ultimately show ?thesis using assms by auto
qed

lemma decompressPoint_Inr:
  assumes "decompressPoint C x b = Inr Y" "0 < curve_P C"
  shows "0 \<le> Y" "b = odd Y"
proof -
  let ?y = "ExpMod (x * x * x + curve_B C) ((curve_P C + 1) div 4) (curve_P C)"
  have r: "0 \<le> ?y" "?y < curve_P C" using ExpMod_range [OF assms(2)] by simp_all
  from assms(1) show "b = odd Y"
    by (auto simp: decompressPoint_def Let_def split: if_splits)
  from assms(1) r show "0 \<le> Y"
    by (auto simp: decompressPoint_def Let_def split: if_splits)
qed

lemma decompressPoint_error:
  "decompressPoint C x b = Inl err \<Longrightarrow> err = ErrPubKeyYbit"
  by (auto simp: decompressPoint_def Let_def split: if_splits)

lemma ParsePubKey_error_kind:
  "ParsePubKey C bs = Inl err \<Longrightarrow> kind_of err = InvalidPublicKey"
  by (auto simp: ParsePubKey_def Let_def split: if_splits sum.splits
      dest: decompressPoint_error)

lemma ParsePubKey_Inr_cases:
  assumes "ParsePubKey C bs = Inr Q"
  shows "fst Q < curve_P C \<and> snd Q < curve_P C \<and> IsOnCurve C Q
       \<and> fst Q = SetBytes (take 32 (drop 1 bs))
       \<and> ((length bs = 65 \<and> snd Q = SetBytes (drop 33 bs))
          \<or> (length bs = 33 \<and> hd bs AND NOT 1 = 2
              \<and> decompressPoint C (fst Q) (hd bs AND 1 = 1) = Inr (snd Q)))"
proof -
  define parsed where "parsed =
     (if length bs = 65 then
        (if hd bs AND NOT 1 \<noteq> 4 \<and> hd bs AND NOT 1 \<noteq> 6 then Inl ErrPubKeyMagic
         else if hd bs AND NOT 1 = 6 \<and> (hd bs AND 1 = 1) \<noteq> odd (SetBytes (drop 33 bs))
              then Inl ErrPubKeyYbit
              else Inr (SetBytes (take 32 (drop 1 bs)), SetBytes (drop 33 bs)))
      else if length bs = 33 then
        (if hd bs AND NOT 1 \<noteq> 2 then Inl ErrPubKeyMagic
         else case decompressPoint C (SetBytes (take 32 (drop 1 bs))) (hd bs AND 1 = 1) of
                Inl err \<Rightarrow> Inl err
              | Inr Y \<Rightarrow> Inr (SetBytes (take 32 (drop 1 bs)), Y))
      else Inl ErrPubKeyLength)"
  have unf: "ParsePubKey C bs =
     (if bs = [] then Inl ErrPubKeyEmpty
      else case parsed of
             Inl err \<Rightarrow> Inl err
           | Inr Q \<Rightarrow>
               if curve_P C \<le> fst Q then Inl ErrPubKeyXTooBig
               else if curve_P C \<le> snd Q then Inl ErrPubKeyYTooBig
               else if \<not> IsOnCurve C Q then Inl ErrPubKeyNotOnCurve
               else Inr Q)"
    unfolding ParsePubKey_def parsed_def Let_def by (rule refl)
  from assms have p: "parsed = Inr Q" and chk: "fst Q < curve_P C" "snd Q < curve_P C" "IsOnCurve C Q"
    unfolding unf by (cases parsed; simp split: if_splits)+
  from p have "fst Q = SetBytes (take 32 (drop 1 bs))
       \<and> ((length bs = 65 \<and> snd Q = SetBytes (drop 33 bs))
          \<or> (length bs = 33 \<and> hd bs AND NOT 1 = 2
              \<and> decompressPoint C (fst Q) (hd bs AND 1 = 1) = Inr (snd Q)))"
    unfolding parsed_def by (auto split: if_splits sum.splits)
  with chk show ?thesis by blast
qed

lemma ParsePubKey_Inr:
  assumes "ParsePubKey C bs = Inr Q"
  shows "0 < curve_P C" "on_curve C Q"
    "0 \<le> fst Q" "fst Q < curve_P C" "0 \<le> snd Q" "snd Q < curve_P C" "IsOnCurve C Q"
proof -
  note c = ParsePubKey_Inr_cases [OF assms]
  from c have chk: "fst Q < curve_P C" "snd Q < curve_P C" "IsOnCurve C Q" by simp_all
  from c have x0: "0 \<le> fst Q" by (simp add: SetBytes_nonneg)
  with chk show p: "0 < curve_P C" by simp
  from c show y0: "0 \<le> snd Q"
    using decompressPoint_Inr(1) [OF _ p] by (auto simp: SetBytes_nonneg)
  show "fst Q < curve_P C" "snd Q < curve_P C" "IsOnCurve C Q" "0 \<le> fst Q" by (fact chk x0)+
  show "on_curve C Q" using chk x0 y0 by (simp add: on_curve_def)
qed

lemma ParsePubKey_sec1:
  assumes "ParsePubKey C bs = Inr Q" "length bs = 33"
  shows "sec1_compressed C bs"
proof -
  note r = ParsePubKey_Inr [OF assms(1)]
  note c = ParsePubKey_Inr_cases [OF assms(1)]
  from assms(2) obtain f xs where bs: "bs = f # xs" and xs: "length xs = 32"
    by (cases bs) auto
  have X: "fst Q = SetBytes xs" using c xs by (simp add: bs)
  have "decompressPoint C (fst Q) (f AND 1 = 1) = Inr (snd Q) \<and> f AND NOT 1 = 2"
    using c assms(2) by (auto simp: bs)
  then have dec: "decompressPoint C (fst Q) (f AND 1 = 1) = Inr (snd Q)"
    and fmt: "f AND NOT 1 = 2" by simp_all
  from fmt have f: "f = 2 \<or> f = 3" by (rule byte_format_cases)
  have "(f AND 1 = 1) = odd (snd Q)" using decompressPoint_Inr(2) [OF dec r(1)] .
  moreover have "(f AND 1 = 1) = (f = 3)" using f by auto
  ultimately have par: "odd (snd Q) = (f = 3)" by simp
  have Q: "Q = (SetBytes xs, snd Q)" using X by (cases Q) simp
  have oc: "IsOnCurve C (SetBytes xs, snd Q)" using r(7) Q by simp
  have mem: "snd Q \<in> {0..<curve_P C}" using r(5,6) by simp
  have ex: "\<exists>y\<in>{0..<curve_P C}. odd y = (hd bs = 3) \<and> IsOnCurve C (SetBytes (tl bs), y)"
    using mem par oc by (intro bexI [of _ "snd Q"]) (simp_all add: bs)
  have hd: "hd bs = 2 \<or> hd bs = 3" using f by (simp add: bs)
  have xp: "SetBytes (tl bs) < curve_P C" using r(4) X by (simp add: bs)
  show ?thesis
    unfolding sec1_compressed_def using assms(2) hd xp ex by blast
qed

text \<open>
  Claim C6. \<open>ComputeSignaturePubKey\<close> returns an error of the kind \<open>InvalidPublicKey\<close>
  whenever one of its two 33-byte buffers does not decode to a curve point under the
  compressed encoding; in particular whenever the prefix byte of one of them is \<open>0x04\<close>.
\<close>

theorem ComputeSignaturePubKey_invalid_key:
  assumes "length pubA = 33" "length pubR = 33"
    and "\<not> sec1_compressed C pubA \<or> \<not> sec1_compressed C pubR \<or> hd pubA = 4 \<or> hd pubR = 4"
  shows "\<exists>err. ComputeSignaturePubKey C H pubA pubR m = (replicate 33 0, Some err)
              \<and> kind_of err = InvalidPublicKey"
proof -
  have "\<not> sec1_compressed C bs" if "hd bs = 4" for bs
    using that by (simp add: sec1_compressed_def)
  with assms(3) have bad: "\<not> sec1_compressed C pubA \<or> \<not> sec1_compressed C pubR" by blast
  show ?thesis
  proof (cases "ParsePubKey C pubA")
    case (Inl err)
    then show ?thesis
      by (simp add: ComputeSignaturePubKey_def ParsePubKey_error_kind)
  next
    case A: (Inr A)
    then have "sec1_compressed C pubA" using assms(1) by (rule ParsePubKey_sec1)
    with bad have nR: "\<not> sec1_compressed C pubR" by simp
    show ?thesis
    proof (cases "ParsePubKey C pubR")
      case (Inl err)
      with A show ?thesis
        by (simp add: ComputeSignaturePubKey_def ParsePubKey_error_kind)
    next
      case (Inr R)
      then have "sec1_compressed C pubR" using assms(2) by (rule ParsePubKey_sec1)
      with nR show ?thesis by simp
    qed
  qed
qed

theorem ComputeSignaturePubKey_invalid_key_witness:
  "length (4 # replicate 32 (0::byte)) = 33
   \<and> hd (4 # replicate 32 (0::byte)) = 4
   \<and> \<not> sec1_compressed S256 (4 # replicate 32 0)
   \<and> (\<exists>err. ComputeSignaturePubKey S256 small_hash (4 # replicate 32 0) (4 # replicate 32 0) [42]
               = (replicate 33 0, Some err) \<and> kind_of err = InvalidPublicKey)"
proof -
  have l: "length (4 # replicate 32 (0::byte)) = 33" by simp
  have n: "\<not> sec1_compressed S256 (4 # replicate 32 0)" by (simp add: sec1_compressed_def)
  show ?thesis
    using ComputeSignaturePubKey_invalid_key [OF l l, of S256 small_hash "[42]"] l n
    by simp
qed

lemma SerializeCompressed_infinity: "SerializeCompressed infinity = 2 # replicate 32 0"
  by (simp add: SerializeCompressed_def infinity_def paddedAppend_def Bytes_def)

text \<open>
  Claim C9. \<open>ComputeSignaturePubKey\<close> returns an error exactly when a buffer fails to
  parse or the challenge is not below \<open>N\<close>. When the parsed points satisfy \<open>R = e \<cdot> A\<close>, the
  sum \<open>R + (-(e \<cdot> A))\<close> is the point at infinity, and the call succeeds and returns the
  serialisation of that point, the byte \<open>0x02\<close> followed by 32 zero bytes.
\<close>

theorem ComputeSignaturePubKey_degenerate:
  assumes "odd (curve_P C)"
  shows "(snd (ComputeSignaturePubKey C H pubA pubR m) \<noteq> None \<longleftrightarrow>
            ((\<exists>err. ParsePubKey C pubA = Inl err) \<or> (\<exists>err. ParsePubKey C pubR = Inl err)
             \<or> (\<exists>R. ParsePubKey C pubR = Inr R
                   \<and> curve_N C \<le> SetBytes (H (m @ Bytes (fst R))))))
       \<and> (\<forall>A R. ParsePubKey C pubA = Inr A \<and> ParsePubKey C pubR = Inr R
             \<and> SetBytes (H (m @ Bytes (fst R))) < curve_N C
             \<and> R = smul C (SetBytes (H (m @ Bytes (fst R)))) A \<longrightarrow>
             Add C (neg_point C (smul C (SetBytes (H (m @ Bytes (fst R)))) A)) R = infinity
             \<and> ComputeSignaturePubKey C H pubA pubR m = (2 # replicate 32 0, None))"
proof -
  have err: "snd (ComputeSignaturePubKey C H pubA pubR m) \<noteq> None \<longleftrightarrow>
            ((\<exists>err. ParsePubKey C pubA = Inl err) \<or> (\<exists>err. ParsePubKey C pubR = Inl err)
             \<or> (\<exists>R. ParsePubKey C pubR = Inr R
                   \<and> curve_N C \<le> SetBytes (H (m @ Bytes (fst R)))))"
  proof (cases "ParsePubKey C pubA")
    case (Inl e)
    then show ?thesis by (simp add: ComputeSignaturePubKey_def)
  next
    case A: (Inr A)
    show ?thesis
    proof (cases "ParsePubKey C pubR")
      case (Inl e)
      with A show ?thesis by (simp add: ComputeSignaturePubKey_def)
    next
      case (Inr R)
      with A show ?thesis by (simp add: ComputeSignaturePubKey_unfold [OF A Inr])
    qed
  qed
  have deg: "Add C (neg_point C (smul C (SetBytes (H (m @ Bytes (fst R)))) A)) R = infinity
             \<and> ComputeSignaturePubKey C H pubA pubR m = (2 # replicate 32 0, None)"
    if A: "ParsePubKey C pubA = Inr A" and R: "ParsePubKey C pubR = Inr R"
      and e: "SetBytes (H (m @ Bytes (fst R))) < curve_N C"
      and eq: "R = smul C (SetBytes (H (m @ Bytes (fst R)))) A" for A R
  proof -
    have p: "0 < curve_P C" and oR: "on_curve C R"
      using ParsePubKey_Inr [OF R] by simp_all
    have "Add C (neg_point C R) R = infinity"
      using p assms oR by (rule Add_neg_left)
    then have inf: "Add C (neg_point C (smul C (SetBytes (H (m @ Bytes (fst R)))) A)) R = infinity"
      using eq by simp
    then show ?thesis
      using e by (simp add: ComputeSignaturePubKey_unfold [OF A R]
          SerializeCompressed_infinity copy_bytes_def)
  qed
  show ?thesis using err deg by blast
qed

theorem ComputeSignaturePubKey_degenerate_witness:
  "odd (curve_P small_curve)
   \<and> ParsePubKey small_curve (2 # replicate 31 0 @ [1]) = Inr (1, 2)
   \<and> ParsePubKey small_curve (2 # replicate 31 0 @ [2]) = Inr (2, 2)
   \<and> SetBytes (small_hash ([4] @ Bytes (fst (2 :: int, 2 :: int)))) < curve_N small_curve
   \<and> (2, 2) = smul small_curve (SetBytes (small_hash ([4] @ Bytes (fst (2 :: int, 2 :: int))))) (1, 2)
   \<and> snd (ComputeSignaturePubKey small_curve small_hash
             (2 # replicate 31 0 @ [1]) (2 # replicate 31 0 @ [2]) [4]) = None
   \<and> ComputeSignaturePubKey small_curve small_hash
         (2 # replicate 31 0 @ [1]) (2 # replicate 31 0 @ [2]) [4]
       = (2 # replicate 32 0, None)"
proof -
  have p: "odd (curve_P small_curve)" by (simp add: small_curve_def)
  have A: "ParsePubKey small_curve (2 # replicate 31 0 @ [1]) = Inr (1, 2)" by code_simp
  have R: "ParsePubKey small_curve (2 # replicate 31 0 @ [2]) = Inr (2, 2)" by code_simp
  have e: "SetBytes (small_hash ([4] @ Bytes (fst (2 :: int, 2 :: int)))) < curve_N small_curve"
    by code_simp
  have q: "(2, 2) = smul small_curve (SetBytes (small_hash ([4] @ Bytes (fst (2 :: int, 2 :: int))))) (1, 2)"
    by code_simp
  have r: "ComputeSignaturePubKey small_curve small_hash
         (2 # replicate 31 0 @ [1]) (2 # replicate 31 0 @ [2]) [4]
       = (2 # replicate 32 0, None)"
    using ComputeSignaturePubKey_degenerate [OF p, of small_hash "2 # replicate 31 0 @ [1]"
        "2 # replicate 31 0 @ [2]" "[4]"] A R e q
    by blast
  then have "snd (ComputeSignaturePubKey small_curve small_hash
             (2 # replicate 31 0 @ [1]) (2 # replicate 31 0 @ [2]) [4]) = None"
    by simp
  with p A R e q r show ?thesis by blast
qed

section \<open>The message buffer of the caller\<close>

lemma go_append_bytes:
  assumes "slice_valid st s"
  shows "slice_bytes (snd (go_append st s bs)) (fst (go_append st s bs)) = slice_bytes st s @ bs"
proof (cases "sl_len s + length bs \<le> sl_cap s")
  case True
  let ?a = "st ! sl_array s"
  let ?pos = "sl_off s + sl_len s"
  from assms True have b: "sl_array s < length st" "?pos + length bs \<le> length ?a"
    by (auto simp: slice_valid_def)
  have "drop (sl_off s) (take ?pos ?a @ bs @ drop (?pos + length bs) ?a)
      = take (sl_len s) (drop (sl_off s) ?a) @ bs @ drop (?pos + length bs) ?a"
    using b by (simp add: drop_take)
  moreover have "length (take (sl_len s) (drop (sl_off s) ?a)) = sl_len s"
    using b by simp
  ultimately show ?thesis
    using True b by (simp add: go_append_def slice_bytes_def Let_def)
next
  case False
  from assms have "sl_off s + sl_len s \<le> length (st ! sl_array s)"
    by (simp add: slice_valid_def)
  with False show ?thesis
    by (simp add: go_append_def slice_bytes_def Let_def min_def)
qed

lemma go_append_keeps_contents:
  assumes "slice_valid st s"
  shows "slice_bytes (snd (go_append st s bs)) s = slice_bytes st s"
proof (cases "sl_len s + length bs \<le> sl_cap s")
  case True
  let ?a = "st ! sl_array s"
  let ?pos = "sl_off s + sl_len s"
  from assms True have b: "sl_array s < length st" "?pos + length bs \<le> length ?a"
    by (auto simp: slice_valid_def)
  have "drop (sl_off s) (take ?pos ?a @ bs @ drop (?pos + length bs) ?a)
      = take (sl_len s) (drop (sl_off s) ?a) @ bs @ drop (?pos + length bs) ?a"
    using b by (simp add: drop_take)
  moreover have "length (take (sl_len s) (drop (sl_off s) ?a)) = sl_len s"
    using b by simp
  ultimately show ?thesis
    using True b by (simp add: go_append_def slice_bytes_def Let_def)
next
  case False
  from assms have "sl_array s < length st" by (simp add: slice_valid_def)
  with False show ?thesis
    by (simp add: go_append_def slice_bytes_def Let_def nth_append)
qed

lemma ComputeSignature_mem_result:
  assumes "slice_valid st msg"
  shows "fst (ComputeSignature_mem C H a k msg st) = ComputeSignature C H a k (slice_bytes st msg)"
  using go_append_bytes [OF assms, of "Bytes (fst (ScalarBaseMult C k))"]
  by (simp add: ComputeSignature_mem_def ComputeSignature_def Let_def split_beta
      split: option.splits)

lemma ComputeSignaturePubKey_mem_result:
  assumes "slice_valid st msg"
  shows "fst (ComputeSignaturePubKey_mem C H pubA pubR msg st)
         = ComputeSignaturePubKey C H pubA pubR (slice_bytes st msg)"
  using go_append_bytes [OF assms]
  by (simp add: ComputeSignaturePubKey_mem_def ComputeSignaturePubKey_def Let_def split_beta
      split: sum.splits)

lemma ComputeSignature_mem_store:
  "snd (ComputeSignature_mem C H a k msg st) =
     (if invalid_scalar C a \<or> invalid_scalar C k then st
      else snd (go_append st msg (Bytes (fst (ScalarBaseMult C k)))))"
  by (simp add: ComputeSignature_mem_def invalid_scalar_def Let_def split_beta
      split: option.splits)

lemma ComputeSignaturePubKey_mem_store:
  "snd (ComputeSignaturePubKey_mem C H pubA pubR msg st) =
     (case ParsePubKey C pubA of
        Inl err \<Rightarrow> st
      | Inr A \<Rightarrow>
          (case ParsePubKey C pubR of
             Inl err \<Rightarrow> st
           | Inr R \<Rightarrow> snd (go_append st msg (Bytes (fst R)))))"
  by (simp add: ComputeSignaturePubKey_mem_def Let_def split_beta split: sum.splits)

lemma ComputeSignature_mem_keeps_contents:
  assumes "slice_valid st msg"
  shows "slice_bytes (snd (ComputeSignature_mem C H a k msg st)) msg = slice_bytes st msg"
  using go_append_keeps_contents [OF assms] by (simp add: ComputeSignature_mem_store)

lemma ComputeSignaturePubKey_mem_keeps_contents:
  assumes "slice_valid st msg"
  shows "slice_bytes (snd (ComputeSignaturePubKey_mem C H pubA pubR msg st)) msg = slice_bytes st msg"
  using go_append_keeps_contents [OF assms]
  by (simp add: ComputeSignaturePubKey_mem_store split: sum.splits)

text \<open>
  Claim C7 says that the message buffer of the caller, its contents and its backing
  storage, is unchanged when the functions return. The contents within the length are
  unchanged (the two lemmas above), the backing storage is not: for a message of 32 bytes
  in an array of 64, with both keys 1, \<open>ComputeSignature\<close> leaves the 32 bytes of the X
  coordinate of \<open>G\<close> in the second half of the array of the caller, whatever the hash.
\<close>

theorem ComputeSignature_overwrites_backing_array:
  "slice_valid [replicate 64 0] \<lparr>sl_array = 0, sl_off = 0, sl_len = 32, sl_cap = 64\<rparr>
   \<and> snd (ComputeSignature_mem S256 H (replicate 31 0 @ [1]) (replicate 31 0 @ [1])
            \<lparr>sl_array = 0, sl_off = 0, sl_len = 32, sl_cap = 64\<rparr> [replicate 64 0])
       = [replicate 32 0 @
          [121, 190, 102, 126, 249, 220, 187, 172, 85, 160, 98, 149, 206, 135, 11, 7,
           2, 155, 252, 219, 45, 206, 40, 217, 89, 242, 129, 91, 22, 248, 23, 152]]
   \<and> snd (ComputeSignature_mem S256 H (replicate 31 0 @ [1]) (replicate 31 0 @ [1])
            \<lparr>sl_array = 0, sl_off = 0, sl_len = 32, sl_cap = 64\<rparr> [replicate 64 0])
       \<noteq> [replicate 64 0]"
proof -
  have v: "\<not> invalid_scalar S256 (replicate 31 0 @ [1])"
    by (simp add: invalid_scalar_def S256_def)
  have "snd (go_append [replicate 64 0] \<lparr>sl_array = 0, sl_off = 0, sl_len = 32, sl_cap = 64\<rparr>
          (Bytes (fst (ScalarBaseMult S256 (replicate 31 0 @ [1])))))
       = [replicate 32 0 @
          [121, 190, 102, 126, 249, 220, 187, 172, 85, 160, 98, 149, 206, 135, 11, 7,
           2, 155, 252, 219, 45, 206, 40, 217, 89, 242, 129, 91, 22, 248, 23, 152]]"
    by code_simp
  moreover have "slice_valid [replicate 64 0] \<lparr>sl_array = 0, sl_off = 0, sl_len = 32, sl_cap = 64\<rparr>"
    by (simp add: slice_valid_def)
  moreover have "replicate 32 0 @
          [121, 190, 102, 126, 249, 220, 187, 172, 85, 160, 98, 149, 206, 135, 11, 7,
           2, 155, 252, 219, 45, 206, 40, 217, 89, 242, 129, 91, 22, 248, 23, 152]
      \<noteq> replicate 64 (0::byte)"
    by code_simp
  ultimately show ?thesis using v by (simp only: ComputeSignature_mem_store) simp
qed

end
